theory Spec2Isabelle
  imports Main "HOL-Library.Word"
begin

unbundle bit_operations_syntax

section \<open>Node addressing\<close>

text \<open>
  The program addresses tree nodes with \<open>compact.NodeID\<close> of the package
  \<open>github.com/transparency-dev/merkle/compact\<close>: a struct with the fields
  \<open>Level uint\<close> and \<open>Index uint64\<close>. Levels stay far below the width of \<open>uint\<close>
  (at most 65 here), so \<open>Level\<close> is a natural number; \<open>Index\<close> is a 64-bit word.
\<close>

record NodeID =
  Level :: nat
  Index :: "64 word"

text \<open>
  Modelled from the spec: \<open>compact.NewNodeID\<close> (package compact is not part of the sources);
  a node identity is the pair of its level and index.
\<close>

definition NewNodeID :: "nat \<Rightarrow> 64 word \<Rightarrow> NodeID" where
  "NewNodeID l i = \<lparr>Level = l, Index = i\<rparr>"

text \<open>
  Modelled from the spec: \<open>NodeID.Parent\<close> (package compact is not part of the sources);
  the children of \<open>(level, index)\<close> are \<open>(level - 1, index * 2)\<close> and its sibling, so the
  parent is one level up at half the index.
\<close>

definition Parent :: "NodeID \<Rightarrow> NodeID" where
  "Parent nd = NewNodeID (Level nd + 1) (drop_bit 1 (Index nd))"

text \<open>
  Modelled from the spec: \<open>NodeID.Sibling\<close> (package compact is not part of the sources);
  the sibling is the other child of the same parent: the lowest index bit flipped.
\<close>

definition Sibling :: "NodeID \<Rightarrow> NodeID" where
  "Sibling nd = NewNodeID (Level nd) (Index nd XOR 1)"

text \<open>
  Modelled from the spec: \<open>NodeID.Coverage\<close> (package compact is not part of the sources);
  the half-open range of leaf indices below the node, computed in \<open>uint64\<close>.
\<close>

definition Coverage :: "NodeID \<Rightarrow> 64 word \<times> 64 word" where
  "Coverage nd = (push_bit (Level nd) (Index nd), push_bit (Level nd) (Index nd + 1))"

section \<open>The annotation table\<close>

text \<open>The struct \<open>nodeInfo\<close>; the field \<open>proof\<close> is written \<open>proof'\<close>.\<close>

record nodeInfo =
  proof' :: bool
  incPath :: bool
  target :: bool
  perfectRoot :: bool
  ephemeral :: bool
  leaf :: bool
  dataRangeIndices :: "int list"
  rangeIndices :: "int list"

text \<open>The zero value of \<open>nodeInfo\<close>, which a Go map returns for a missing key.\<close>

definition zeroInfo :: nodeInfo where
  "zeroInfo = \<lparr>proof' = False, incPath = False, target = False, perfectRoot = False,
     ephemeral = False, leaf = False, dataRangeIndices = [], rangeIndices = []\<rparr>"

text \<open>The global \<open>nInfo\<close>, a \<open>map[compact.NodeID]nodeInfo\<close>, passed explicitly.\<close>

type_synonym nInfo = "NodeID \<rightharpoonup> nodeInfo"

text \<open>The read \<open>nInfo[id]\<close>.\<close>

definition nInfoGet :: "nInfo \<Rightarrow> NodeID \<Rightarrow> nodeInfo" where
  "nInfoGet m nd = (case m nd of None \<Rightarrow> zeroInfo | Some n \<Rightarrow> n)"

definition modifyNodeInfo :: "NodeID \<Rightarrow> (nodeInfo \<Rightarrow> nodeInfo) \<Rightarrow> nInfo \<Rightarrow> nInfo" where
  "modifyNodeInfo nd f m = m(nd \<mapsto> f (nInfoGet m nd))"

section \<open>Flags, errors and the output stream\<close>

text \<open>The command-line flags, which the program reads as globals.\<close>

record flags =
  treeSize :: "64 word"
  leafData :: string
  nodeFormat :: string
  inclusion :: int
  megaMode :: nat
  ranges :: string
  attrPerfectRoot :: string
  attrEphemeralNode :: string

text \<open>
  The failures of the program: the errors of \<open>parseRanges\<close>, the fatal exits of \<open>main\<close>,
  and the run-time panic of an index beyond a slice.
\<close>

datatype error =
    TooManyRanges nat
  | InvalidRange string
  | MalformedRange string
  | RangePastEnd string
  | RangeOutOfOrder string
  | UnknownNodeFormat string
  | InclusionFailed
  | IndexOutOfRange

text \<open>
  What the program prints, one value per \<open>Printf\<close>. A node block carries the prefix, the
  node and the annotation \<open>a\<close> whose \<open>a.String()\<close> is printed:
  \<^item> \<open>LeafHash\<close>: \<^verbatim>\<open>"%s [%s, %s, align=center, tier=leaf\n"\<close> of \<open>drawLeaf\<close>;
  \<^item> \<open>LeafDataNode\<close>: \<^verbatim>\<open>"  %s [%s, %s, align=center, tier=leafdata]\n]\n"\<close> of \<open>drawLeaf\<close>;
  \<^item> \<open>InnerOpen\<close>: \<^verbatim>\<open>"%s [%s, %s, tier=%d\n"\<close> of \<open>openInnerNode\<close>;
  \<^item> \<open>InnerClose\<close>: \<^verbatim>\<open>"%s ]\n"\<close>, the closure \<open>openInnerNode\<close> returns;
  \<^item> \<open>MegaBlock\<close>: the first \<open>Printf\<close> of \<open>perfectMega\<close>, with the prefix, \<open>begin\<close>,
    \<open>end\<close>, \<open>size\<close>, and the tree size that divides \<open>size\<close> for the width;
  \<^item> \<open>MegaIndent\<close>: \<^verbatim>\<open>"%s"\<close> of \<open>perfectMega\<close>;
  \<^item> \<open>HiddenOpen\<close>: \<^verbatim>\<open>" [, no edge, tier=%d "\<close>; \<open>HiddenClose\<close>: \<^verbatim>\<open>" ] "\<close>;
  \<^item> \<open>PreambleText\<close> and \<open>PostfixText\<close>: the two constant texts of \<open>main\<close>.
\<close>

datatype event =
    PreambleText
  | PostfixText
  | LeafHash string NodeID nodeInfo
  | LeafDataNode string NodeID nodeInfo
  | InnerOpen string NodeID nodeInfo
  | InnerClose string
  | MegaBlock string "64 word" "64 word" "64 word" "64 word"
  | MegaIndent string
  | HiddenOpen int
  | HiddenClose

section \<open>Style resolution: \<open>nodeInfo.String\<close>\<close>

text \<open>The verb \<open>%d\<close> of \<open>fmt\<close> on an \<open>int\<close>.\<close>

fun showNat :: "nat \<Rightarrow> string" where
  "showNat n = (if n < 10 then [''0123456789'' ! n]
                else showNat (n div 10) @ [''0123456789'' ! (n mod 10)])"

definition showInt :: "int \<Rightarrow> string" where
  "showInt i = (if i < 0 then ''-'' @ showNat (nat (- i)) else showNat (nat i))"

text \<open>\<open>strings.Join\<close>.\<close>

fun joinStrings :: "string list \<Rightarrow> string \<Rightarrow> string" where
  "joinStrings [] sep = []"
| "joinStrings [x] sep = x"
| "joinStrings (x # y # ys) sep = x @ sep @ joinStrings (y # ys) sep"

definition posNames :: "string list" where
  "posNames = [''left'', ''right'', ''middle'']"

text \<open>
  The loop \<open>for i, ri := range indices\<close> of \<open>String\<close> with the palette name \<open>pal\<close>
  (\<open>target\<close> or \<open>range\<close>): the position name is read at index \<open>i\<close> of a slice of three,
  which panics from the fourth entry on.
\<close>

fun bandAttrs :: "string \<Rightarrow> nat \<Rightarrow> int list \<Rightarrow> error + string list" where
  "bandAttrs pal i [] = Inr []"
| "bandAttrs pal i (ri # ris) =
     (if i < length posNames
      then (case bandAttrs pal (Suc i) ris of
              Inl e \<Rightarrow> Inl e
            | Inr rest \<Rightarrow> Inr ((posNames ! i @ '' color='' @ pal @ showInt ri @ ''!50'') # rest))
      else Inl IndexOutOfRange)"

text \<open>The attributes the two range branches of \<open>String\<close> append.\<close>

definition rangeAttrs :: "nodeInfo \<Rightarrow> error + string list" where
  "rangeAttrs n =
     (if leaf n
      then (if length (dataRangeIndices n) = 1 then Inr []
            else if length (dataRangeIndices n) > 1 then bandAttrs ''target'' 0 (dataRangeIndices n)
            else Inr [])
      else (if length (rangeIndices n) = 1 then Inr []
            else if length (rangeIndices n) > 1 then bandAttrs ''range'' 0 (rangeIndices n)
            else Inr []))"

text \<open>The variable \<open>fill\<close> of \<open>String\<close> when it is printed, in the order of its assignments.\<close>

definition fillOf :: "nodeInfo \<Rightarrow> string" where
  "fillOf n =
     (let fill0 = ''white'';
          fill1 = (if proof' n then (if ephemeral n then ''proof_ephemeral'' else ''proof'')
                   else fill0);
          fill2 = (if leaf n
                   then (if length (dataRangeIndices n) = 1
                         then ''target'' @ showInt (dataRangeIndices n ! 0) @ ''!50'' else fill1)
                   else (if length (rangeIndices n) = 1
                         then ''range'' @ showInt (rangeIndices n ! 0) @ ''!50'' else fill1));
          fill3 = (if target n then ''target'' else fill2);
          fill4 = (if incPath n then ''target_path'' else fill3)
      in fill4)"

definition nodeInfo_String :: "flags \<Rightarrow> nodeInfo \<Rightarrow> error + string" where
  "nodeInfo_String fl n =
     (case rangeAttrs n of
        Inl e \<Rightarrow> Inl e
      | Inr bands \<Rightarrow>
          Inr (joinStrings
                ((if perfectRoot n then [attrPerfectRoot fl] else [])
                 @ bands
                 @ [''fill='' @ fillOf n]
                 @ [if \<not> ephemeral n then ''draw'' else attrEphemeralNode fl]
                 @ [if \<not> leaf n then ''circle, minimum size=3em, align=center''
                    else ''minimum size=1.5em, align=center, base=bottom''])
                '', ''))"

section \<open>Rendering perfect subtrees\<close>

text \<open>
  The loop of \<open>perfectMega\<close>, \<open>for i := int(id.Level) - 2; i > 0; i--\<close>: each round prints
  a hidden node and defers its closing bracket. The result is what is printed and what is
  deferred, in the order of deferral.
\<close>

function hiddenNodes :: "int \<Rightarrow> event list \<times> event list" where
  "hiddenNodes i =
     (if i > 0
      then (let (out, deferred) = hiddenNodes (i - 1)
            in (HiddenOpen i # out, HiddenClose # deferred))
      else ([], []))"
  by pat_completeness auto
termination
  by (relation "measure nat") auto

text \<open>The deferred calls run last in, first out when \<open>perfectMega\<close> returns.\<close>

definition perfectMega :: "flags \<Rightarrow> string \<Rightarrow> NodeID \<Rightarrow> event list" where
  "perfectMega fl prefix nd =
     (let (begin, end) = Coverage nd;
          size = end - begin;
          (out, deferred) = hiddenNodes (int (Level nd) - 2)
      in [MegaBlock prefix begin end size (treeSize fl), MegaIndent prefix] @ out @ rev deferred)"

definition drawLeaf :: "flags \<Rightarrow> string \<Rightarrow> 64 word \<Rightarrow> nInfo \<Rightarrow> error + event list" where
  "drawLeaf fl prefix index m =
     (let nd = NewNodeID 0 index;
          a0 = nInfoGet m nd;
          a = (if length (dataRangeIndices a0) > 0 then a0\<lparr>incPath := False\<rparr> else a0)
      in case nodeInfo_String fl a of
           Inl e \<Rightarrow> Inl e
         | Inr hashAttr \<Rightarrow>
             (let b0 = nInfoGet m nd;
                  b1 = b0\<lparr>leaf := True\<rparr>;
                  b2 = b1\<lparr>proof' := False\<rparr>;
                  b = b2\<lparr>incPath := False, target := incPath b2\<rparr>
              in case nodeInfo_String fl b of
                   Inl e \<Rightarrow> Inl e
                 | Inr dataAttr \<Rightarrow> Inr [LeafHash prefix nd a, LeafDataNode prefix nd b]))"

text \<open>\<open>openInnerNode\<close> prints the opening block and returns the closure that closes it.\<close>

definition openInnerNode :: "flags \<Rightarrow> string \<Rightarrow> NodeID \<Rightarrow> nInfo \<Rightarrow> error + (event \<times> event)" where
  "openInnerNode fl prefix nd m =
     (case nodeInfo_String fl (nInfoGet m nd) of
        Inl e \<Rightarrow> Inl e
      | Inr attr \<Rightarrow> Inr (InnerOpen prefix nd (nInfoGet m nd), InnerClose prefix))"

function perfectInner :: "flags \<Rightarrow> string \<Rightarrow> NodeID \<Rightarrow> bool \<Rightarrow> nInfo \<Rightarrow> error + (event list \<times> nInfo)" where
  "perfectInner fl prefix nd isTop m0 =
     (let m = modifyNodeInfo nd (\<lambda>n. n\<lparr>perfectRoot := isTop\<rparr>) m0
      in if Level nd = 0
         then (case drawLeaf fl prefix (Index nd) m of
                 Inl e \<Rightarrow> Inl e
               | Inr evs \<Rightarrow> Inr (evs, m))
         else (case openInnerNode fl prefix nd m of
                 Inl e \<Rightarrow> Inl e
               | Inr (opened, closer) \<Rightarrow>
                   if Level nd > megaMode fl
                   then Inr (opened # perfectMega fl prefix nd @ [closer], m)
                   else (let left = NewNodeID (Level nd - 1) (Index nd * 2)
                         in case perfectInner fl (prefix @ '' '') left False m of
                              Inl e \<Rightarrow> Inl e
                            | Inr (evl, m1) \<Rightarrow>
                                (case perfectInner fl (prefix @ '' '') (Sibling left) False m1 of
                                   Inl e \<Rightarrow> Inl e
                                 | Inr (evr, m2) \<Rightarrow> Inr (opened # evl @ evr @ [closer], m2)))))"
  by pat_completeness auto
termination
  by (relation "measure (\<lambda>(fl, prefix, nd, isTop, m0). Level nd)")
     (auto simp: NewNodeID_def Sibling_def)

declare perfectInner.simps [simp del]
declare hiddenNodes.simps [simp del]

definition perfect :: "flags \<Rightarrow> string \<Rightarrow> NodeID \<Rightarrow> nInfo \<Rightarrow> error + (event list \<times> nInfo)" where
  "perfect fl prefix nd m = perfectInner fl prefix nd True m"

section \<open>The decomposition into perfect subtrees\<close>

text \<open>
  The package \<open>github.com/transparency-dev/merkle/compact\<close> is not part of the sources;
  the functions of \<open>math/bits\<close> it uses are given first.
\<close>

text \<open>\<open>bits.Len64\<close>: the number of bits needed to write the value, 0 for 0.\<close>

fun bitLen :: "nat \<Rightarrow> nat" where
  "bitLen n = (if n = 0 then 0 else Suc (bitLen (n div 2)))"

definition Len64 :: "64 word \<Rightarrow> nat" where
  "Len64 x = bitLen (unat x)"

text \<open>\<open>bits.TrailingZeros64\<close>: the number of zero bits below the lowest set bit, 64 for 0.\<close>

fun trailingZeros :: "nat \<Rightarrow> nat" where
  "trailingZeros n = (if n = 0 \<or> odd n then 0 else Suc (trailingZeros (n div 2)))"

definition TrailingZeros64 :: "64 word \<Rightarrow> nat" where
  "TrailingZeros64 x = (if x = 0 then 64 else trailingZeros (unat x))"

declare bitLen.simps [simp del]
declare trailingZeros.simps [simp del]

text \<open>
  Modelled from the spec: \<open>compact.Decompose\<close> (package compact is not part of the sources),
  the helper of the decomposition below: the two bit masks of the subtree sizes along the
  left and the right border of \<open>[begin, end)\<close>.
\<close>

definition Decompose :: "64 word \<Rightarrow> 64 word \<Rightarrow> 64 word \<times> 64 word" where
  "Decompose begin end =
     (if begin = 0 then (0, end)
      else (let xbegin = begin - 1;
                d = int (Len64 (xbegin XOR end)) - 1;
                mask = (if d < 0 then 0 else push_bit (nat d) 1) - 1
            in (NOT xbegin AND mask, end AND mask)))"

lemma bit_imp_pow_le: "bit (m::nat) n \<Longrightarrow> 2 ^ n \<le> m"
proof (rule ccontr)
  assume b: "bit m n" and "\<not> 2 ^ n \<le> m"
  then have "m div 2 ^ n = 0" by simp
  then show False using b by (simp add: bit_iff_odd)
qed

lemma bitLen_bit: "n \<noteq> 0 \<Longrightarrow> bit n (bitLen n - 1)"
proof (induction n rule: bitLen.induct)
  case (1 n)
  show ?case
  proof (cases "n div 2 = 0")
    case True
    with 1 have "n = 1" by presburger
    then show ?thesis by (simp add: bitLen.simps bit_0)
  next
    case False
    from 1(1) [OF 1(2) False] have "bit (n div 2) (bitLen (n div 2) - 1)" .
    moreover have "bitLen (n div 2) \<noteq> 0" using False by (subst bitLen.simps) simp
    ultimately show ?thesis using 1(2)
      by (subst bitLen.simps) (cases "bitLen (n div 2)"; simp add: bit_Suc)
  qed
qed

lemma trailingZeros_bit: "n \<noteq> 0 \<Longrightarrow> bit n (trailingZeros n)"
proof (induction n rule: trailingZeros.induct)
  case (1 n)
  show ?case
  proof (cases "odd n")
    case True
    then show ?thesis by (subst trailingZeros.simps) (simp add: bit_0)
  next
    case False
    then have "n div 2 \<noteq> 0" using 1(2) by presburger
    with 1 False have "bit (n div 2) (trailingZeros (n div 2))" by simp
    then show ?thesis using False 1(2) by (subst trailingZeros.simps) (simp add: bit_Suc)
  qed
qed

lemma word_bit_le:
  fixes w :: "64 word"
  assumes "bit w n"
  shows "2 ^ n \<le> unat w"
  using assms bit_imp_pow_le [of "unat w" n] by (simp add: bit_unsigned_iff)

lemma unat_pow2: "n < 64 \<Longrightarrow> unat ((2::64 word) ^ n) = 2 ^ n"
proof -
  assume n: "n < 64"
  have "unat ((2::64 word) ^ n) = unat (of_nat (2 ^ n) :: 64 word)" by simp
  also have "\<dots> = 2 ^ n mod 2 ^ LENGTH(64)" by (rule unat_of_nat)
  also have "\<dots> = 2 ^ n"
  proof -
    have "(2::nat) ^ n < 2 ^ LENGTH(64)" using n by (simp only: power_strict_increasing_iff) simp
    then show ?thesis by (rule mod_less)
  qed
  finally show ?thesis .
qed

lemma word_xor_eq_sub:
  fixes w :: "64 word"
  assumes "bit w n"
  shows "w XOR 2 ^ n = w - 2 ^ n"
proof -
  have "w XOR 2 ^ n = flip_bit n w" by (simp add: flip_bit_def)
  also have "\<dots> = unset_bit n w" using assms by (simp add: flip_bit_eq_if)
  also have "\<dots> = w - 2 ^ n" using assms by (simp add: unset_bit_eq)
  finally show ?thesis .
qed

lemma unat_xor_bit:
  fixes w :: "64 word"
  assumes "bit w n"
  shows "unat (w XOR 2 ^ n) = unat w - 2 ^ n"
proof -
  have n: "n < 64" using bit_imp_le_length [OF assms] by simp
  have p: "unat ((2::64 word) ^ n) = 2 ^ n" using unat_pow2 [OF n] .
  have "(2::64 word) ^ n \<le> w" using word_bit_le [OF assms] p by (simp add: word_le_nat_alt)
  then have "unat (w - 2 ^ n) = unat w - unat ((2::64 word) ^ n)" by (rule unat_sub)
  then show ?thesis using word_xor_eq_sub [OF assms] p by simp
qed

lemma Len64_bit: "w \<noteq> 0 \<Longrightarrow> bit w (Len64 w - Suc 0)"
  using bitLen_bit [of "unat w"] by (simp add: Len64_def bit_unsigned_iff unat_eq_0)

lemma TrailingZeros64_bit: "w \<noteq> 0 \<Longrightarrow> bit w (TrailingZeros64 w)"
  using trailingZeros_bit [of "unat w"] by (simp add: TrailingZeros64_def bit_unsigned_iff unat_eq_0)

lemma xor_bit_less:
  fixes w :: "64 word"
  assumes "bit w n"
  shows "unat (w XOR 2 ^ n) < unat w"
proof -
  have "(0::nat) < 2 ^ n" by simp
  then show ?thesis using unat_xor_bit [OF assms] word_bit_le [OF assms] by linarith
qed

text \<open>
  The first loop of \<open>RangeNodes\<close>, over the perfect subtrees along the left border, from
  lower to upper levels; it returns the nodes and the position it has reached.
\<close>

function rangeLeft :: "64 word \<Rightarrow> 64 word \<Rightarrow> NodeID list \<times> 64 word" where
  "rangeLeft pos left =
     (if left \<noteq> 0
      then (let level = TrailingZeros64 left;
                bit1 = push_bit level 1;
                (ids, pos') = rangeLeft (pos + bit1) (left XOR bit1)
            in (NewNodeID level (drop_bit level pos) # ids, pos'))
      else ([], pos))"
  by pat_completeness auto
termination
  by (relation "measure (\<lambda>(pos, left). unat left)") (auto intro: xor_bit_less TrailingZeros64_bit)

text \<open>
  The second loop of \<open>RangeNodes\<close>, over the perfect subtrees along the right border, from
  upper to lower levels.
\<close>

function rangeRight :: "64 word \<Rightarrow> 64 word \<Rightarrow> NodeID list" where
  "rangeRight pos right =
     (if right \<noteq> 0
      then (let level = Len64 right - 1;
                bit1 = push_bit level 1
            in NewNodeID level (drop_bit level pos) # rangeRight (pos + bit1) (right XOR bit1))
      else [])"
  by pat_completeness auto
termination
  by (relation "measure (\<lambda>(pos, right). unat right)") (auto intro: xor_bit_less Len64_bit)

declare rangeLeft.simps [simp del]
declare rangeRight.simps [simp del]

text \<open>
  Modelled from the spec: \<open>compact.RangeNodes(begin, end, nil)\<close> (package compact is not part
  of the sources), the decomposition primitive: the roots of the maximal perfect subtrees
  whose coverages partition \<open>[begin, end)\<close>, from left to right. It is computed as the
  package does, by the two loops \<open>rangeLeft\<close> and \<open>rangeRight\<close>.
\<close>

definition RangeNodes :: "64 word \<Rightarrow> 64 word \<Rightarrow> NodeID list" where
  "RangeNodes begin end =
     (let (left, right) = Decompose begin end;
          (ids, pos) = rangeLeft begin left
      in ids @ rangeRight pos right)"

section \<open>Rendering the tree\<close>

text \<open>
  The loop of \<open>renderTree\<close> over the roots. Each round but the last marks the parent of
  the root ephemeral, opens it and defers its closing; every round then extends the prefix
  and renders the root. The result is what is printed, the deferred closers in the order
  of deferral, and the table.
\<close>

fun renderLoop :: "flags \<Rightarrow> string \<Rightarrow> NodeID list \<Rightarrow> nInfo \<Rightarrow> error + (event list \<times> event list \<times> nInfo)" where
  "renderLoop fl prefix [] m = Inr ([], [], m)"
| "renderLoop fl prefix (nd # rest) m =
     (case (if rest \<noteq> []
            then (let ephem = Parent nd;
                      m1 = modifyNodeInfo ephem (\<lambda>n. n\<lparr>ephemeral := True\<rparr>) m
                  in case openInnerNode fl prefix ephem m1 of
                       Inl e \<Rightarrow> Inl e
                     | Inr (opened, closer) \<Rightarrow> Inr ([opened], [closer], m1))
            else Inr ([], [], m)) of
        Inl e \<Rightarrow> Inl e
      | Inr (out0, deferred0, m1) \<Rightarrow>
          (case perfect fl (prefix @ '' '') nd m1 of
             Inl e \<Rightarrow> Inl e
           | Inr (out1, m2) \<Rightarrow>
               (case renderLoop fl (prefix @ '' '') rest m2 of
                  Inl e \<Rightarrow> Inl e
                | Inr (out2, deferred2, m3) \<Rightarrow>
                    Inr (out0 @ out1 @ out2, deferred0 @ deferred2, m3))))"

text \<open>The deferred closers run last in, first out when \<open>renderTree\<close> returns.\<close>

definition renderTree :: "flags \<Rightarrow> string \<Rightarrow> 64 word \<Rightarrow> nInfo \<Rightarrow> error + (event list \<times> nInfo)" where
  "renderTree fl prefix sz m =
     (let ids = RangeNodes 0 sz
      in case renderLoop fl prefix ids m of
           Inl e \<Rightarrow> Inl e
         | Inr (out, deferred, m') \<Rightarrow> Inr (out @ rev deferred, m'))"

section \<open>Ranges\<close>

definition maxRanges :: nat where
  "maxRanges = 3"

text \<open>\<open>strings.Split\<close> with a separator of one character.\<close>

fun splitOn :: "char \<Rightarrow> string \<Rightarrow> string list" where
  "splitOn c [] = [[]]"
| "splitOn c (x # xs) =
     (if x = c then [] # splitOn c xs
      else (case splitOn c xs of
              [] \<Rightarrow> [[x]]
            | p # ps \<Rightarrow> (x # p) # ps))"

text \<open>
  The loop of \<open>parseRanges\<close> over the pieces. The scanner \<open>scan\<close> stands for
  \<open>fmt.Sscanf(rng, "%d:%d", &l, &r)\<close> of the standard library: the two numbers, or
  \<open>None\<close> for its error.
\<close>

fun parsePairs :: "(string \<Rightarrow> (64 word \<times> 64 word) option) \<Rightarrow> 64 word \<Rightarrow> string list
    \<Rightarrow> error + (64 word \<times> 64 word) list" where
  "parsePairs scan ts [] = Inr []"
| "parsePairs scan ts (rng # rest) =
     (let lr = splitOn (CHR '':'') rng
      in if length lr \<noteq> 2 then Inl (InvalidRange rng)
         else (case scan rng of
                 None \<Rightarrow> Inl (MalformedRange rng)
               | Some (l, r) \<Rightarrow>
                   if r > ts then Inl (RangePastEnd rng)
                   else if l > r then Inl (RangeOutOfOrder rng)
                   else (case parsePairs scan ts rest of
                           Inl e \<Rightarrow> Inl e
                         | Inr ret \<Rightarrow> Inr ((l, r) # ret))))"

definition parseRanges :: "(string \<Rightarrow> (64 word \<times> 64 word) option) \<Rightarrow> string \<Rightarrow> 64 word
    \<Rightarrow> error + (64 word \<times> 64 word) list" where
  "parseRanges scan rs ts =
     (let rangePairs = splitOn (CHR '','') rs;
          numRanges = length rangePairs
      in if numRanges > maxRanges then Inl (TooManyRanges numRanges)
         else parsePairs scan ts rangePairs)"

lemma unat_word_succ_less:
  fixes i r :: "64 word"
  assumes "i < r"
  shows "unat (i + 1) = Suc (unat i)"
proof -
  have "unat i < unat r" using assms by (simp add: word_less_nat_alt)
  moreover have "unat r < 2 ^ LENGTH(64)" by (rule unsigned_less)
  ultimately have "unat i + unat (1::64 word) < 2 ^ LENGTH(64)" by simp
  then have "unat (i + 1) = unat i + unat (1::64 word)" by (simp only: unat_add_lem)
  then show ?thesis by simp
qed

text \<open>The loop \<open>for i := l; i < r; i++\<close> of \<open>modifyRangeNodeInfo\<close> that sets the leaves.\<close>

function setLeaves :: "int \<Rightarrow> 64 word \<Rightarrow> 64 word \<Rightarrow> nInfo \<Rightarrow> nInfo" where
  "setLeaves ri i r m =
     (if i < r
      then setLeaves ri (i + 1) r
             (modifyNodeInfo (NewNodeID 0 i) (\<lambda>n. n\<lparr>dataRangeIndices := dataRangeIndices n @ [ri]\<rparr>) m)
      else m)"
  by pat_completeness auto
termination
  by (relation "measure (\<lambda>(ri, i, r, m). unat r - unat i)")
     (auto simp: unat_word_succ_less word_less_nat_alt)

declare setLeaves.simps [simp del]

text \<open>The loop over \<open>compact.RangeNodes(l, r, nil)\<close> of \<open>modifyRangeNodeInfo\<close>.\<close>

fun setRangeNodes :: "int \<Rightarrow> NodeID list \<Rightarrow> nInfo \<Rightarrow> nInfo" where
  "setRangeNodes ri [] m = m"
| "setRangeNodes ri (nd # rest) m =
     setRangeNodes ri rest (modifyNodeInfo nd (\<lambda>n. n\<lparr>rangeIndices := rangeIndices n @ [ri]\<rparr>) m)"

text \<open>The loop \<open>for ri, lr := range rng\<close> of \<open>modifyRangeNodeInfo\<close>, from index \<open>ri\<close> on.\<close>

fun applyRanges :: "nat \<Rightarrow> (64 word \<times> 64 word) list \<Rightarrow> nInfo \<Rightarrow> nInfo" where
  "applyRanges ri [] m = m"
| "applyRanges ri ((l, r) # rest) m =
     applyRanges (Suc ri) rest
       (setRangeNodes (int ri) (RangeNodes l r) (setLeaves (int ri) l r m))"

definition modifyRangeNodeInfo :: "(string \<Rightarrow> (64 word \<times> 64 word) option) \<Rightarrow> flags \<Rightarrow> nInfo
    \<Rightarrow> error + nInfo" where
  "modifyRangeNodeInfo scan fl m =
     (case parseRanges scan (ranges fl) (treeSize fl) of
        Inl err \<Rightarrow> Inl err
      | Inr rng \<Rightarrow> Inr (applyRanges 0 rng m))"

section \<open>The inclusion proof and \<open>main\<close>\<close>

text \<open>
  The loop \<open>for i, id := range nodes.IDs\<close> of \<open>main\<close>, from index \<open>i\<close> on: the entries
  inside the ephemeral span are skipped when the span has more than one entry.
\<close>

fun markProofNodes :: "int \<Rightarrow> int \<Rightarrow> int \<Rightarrow> NodeID list \<Rightarrow> nInfo \<Rightarrow> nInfo" where
  "markProofNodes i begin end [] m = m"
| "markProofNodes i begin end (nd # rest) m =
     markProofNodes (i + 1) begin end rest
       (if i \<ge> begin \<and> i < end \<and> begin + 1 < end then m
        else modifyNodeInfo nd (\<lambda>n. n\<lparr>proof' := True\<rparr>) m)"

text \<open>
  The statement after the loop: with a span of more than one entry, the parent of
  \<open>nodes.IDs[end-1]\<close> is marked; the slice access panics out of range.
\<close>

definition markEphemeralProof :: "int \<Rightarrow> int \<Rightarrow> NodeID list \<Rightarrow> nInfo \<Rightarrow> error + nInfo" where
  "markEphemeralProof begin end ids m =
     (if begin + 1 < end
      then (if 0 \<le> end - 1 \<and> end - 1 < int (length ids)
            then Inr (modifyNodeInfo (Parent (ids ! nat (end - 1))) (\<lambda>n. n\<lparr>proof' := True\<rparr>) m)
            else Inl IndexOutOfRange)
      else Inr m)"

text \<open>The marking of proof nodes in \<open>main\<close>, given the node list and the span.\<close>

definition markProof :: "NodeID list \<Rightarrow> int \<Rightarrow> int \<Rightarrow> nInfo \<Rightarrow> error + nInfo" where
  "markProof ids begin end m = markEphemeralProof begin end ids (markProofNodes 0 begin end ids m)"

text \<open>The loop \<open>for id := leafID; id.Level < height; id = id.Parent()\<close> of \<open>main\<close>.\<close>

function markPath :: "nat \<Rightarrow> NodeID \<Rightarrow> nInfo \<Rightarrow> nInfo" where
  "markPath height nd m =
     (if Level nd < height
      then markPath height (Parent nd) (modifyNodeInfo nd (\<lambda>n. n\<lparr>incPath := True\<rparr>) m)
      else m)"
  by pat_completeness auto
termination
  by (relation "measure (\<lambda>(height, nd, m). height - Level nd)")
     (auto simp: Parent_def NewNodeID_def)

declare markPath.simps [simp del]

text \<open>
  How a run ends before the first print to standard output: \<open>Fatal\<close> is \<open>log.Fatalf\<close>,
  which exits the process; \<open>Panic\<close> is a run-time panic.
\<close>

datatype abort = Fatal error | Panic error

text \<open>
  The block \<open>if *inclusion > 0\<close> of \<open>main\<close>, on the table \<open>m\<close>. The provider \<open>incl\<close>
  stands for \<open>proof.Inclusion(index, size)\<close> followed by \<open>Ephem()\<close> of the package
  \<open>github.com/transparency-dev/merkle/proof\<close>: the node list with the span \<open>begin\<close>,
  \<open>end\<close>, or \<open>None\<close> for its error.
\<close>

definition markInclusion :: "(64 word \<Rightarrow> 64 word \<Rightarrow> (NodeID list \<times> int \<times> int) option)
    \<Rightarrow> flags \<Rightarrow> nat \<Rightarrow> nInfo \<Rightarrow> abort + nInfo" where
  "markInclusion incl fl height m =
     (if inclusion fl > 0
      then (let leafID = NewNodeID 0 (word_of_int (inclusion fl));
                m1 = modifyNodeInfo leafID (\<lambda>n. n\<lparr>incPath := True\<rparr>) m
            in case incl (word_of_int (inclusion fl)) (treeSize fl) of
                 None \<Rightarrow> Inl (Fatal InclusionFailed)
               | Some (ids, begin, end) \<Rightarrow>
                   (case markProof ids begin end m1 of
                      Inl e \<Rightarrow> Inl (Panic e)
                    | Inr m2 \<Rightarrow> Inr (markPath height leafID m2)))
      else Inr m)"

text \<open>
  The part of \<open>main\<close> from \<open>flag.Parse\<close> to the first print: it computes the height,
  checks the node format, lets the leaf data override the tree size, and fills the
  annotation table, which is empty when the program starts. The result is the flags in
  force and the table.
\<close>

definition annotate :: "(string \<Rightarrow> (64 word \<times> 64 word) option)
    \<Rightarrow> (64 word \<Rightarrow> 64 word \<Rightarrow> (NodeID list \<times> int \<times> int) option)
    \<Rightarrow> flags \<Rightarrow> abort + (flags \<times> nInfo)" where
  "annotate scan incl fl0 =
     (let height = Len64 (treeSize fl0 - 1) + 1
      in if nodeFormat fl0 \<noteq> ''address'' \<and> nodeFormat fl0 \<noteq> ''hash''
         then Inl (Fatal (UnknownNodeFormat (nodeFormat fl0)))
         else
           (let fl = (if length (leafData fl0) > 0
                      then fl0\<lparr>treeSize := of_nat (length (splitOn (CHR '','') (leafData fl0)))\<rparr>
                      else fl0)
            in case markInclusion incl fl height Map.empty of
                 Inl a \<Rightarrow> Inl a
               | Inr m3 \<Rightarrow>
                   if length (ranges fl) > 0
                   then (case modifyRangeNodeInfo scan fl m3 of
                           Inl err \<Rightarrow> Inl (Fatal err)
                         | Inr m4 \<Rightarrow> Inr (fl, m4))
                   else Inr (fl, m3)))"

text \<open>
  How a run of \<open>main\<close> ends: \<open>Aborted\<close> before the first print, so that nothing is on
  standard output; \<open>Crashed\<close> by a panic while the tree is rendered, after the preamble
  (what was printed of the tree is not recorded); or \<open>Printed\<close> with the whole output.
\<close>

datatype outcome = Aborted abort | Crashed error | Printed "event list"

text \<open>What is on standard output; \<open>None\<close> where it is not recorded.\<close>

fun stdout :: "outcome \<Rightarrow> event list option" where
  "stdout (Aborted a) = Some []"
| "stdout (Crashed e) = None"
| "stdout (Printed out) = Some out"

text \<open>\<open>main\<close>: the annotation, then the preamble, the tree and the postfix.\<close>

definition main :: "(string \<Rightarrow> (64 word \<times> 64 word) option)
    \<Rightarrow> (64 word \<Rightarrow> 64 word \<Rightarrow> (NodeID list \<times> int \<times> int) option)
    \<Rightarrow> flags \<Rightarrow> outcome" where
  "main scan incl fl0 =
     (case annotate scan incl fl0 of
        Inl a \<Rightarrow> Aborted a
      | Inr (fl, m) \<Rightarrow>
          (case renderTree fl [] (treeSize fl) m of
             Inl e \<Rightarrow> Crashed e
           | Inr (out, m') \<Rightarrow> Printed (PreambleText # out @ [PostfixText])))"

text \<open>The defaults of the flags.\<close>

definition defaultFlags :: flags where
  "defaultFlags = \<lparr>treeSize = 23, leafData = [], nodeFormat = ''address'', inclusion = - 1,
     megaMode = 4, ranges = [], attrPerfectRoot = [], attrEphemeralNode = ''draw, dotted''\<rparr>"

text \<open>A scanner for ranges written as two plain decimal numbers, used to run examples.\<close>

fun readDecimal :: "nat \<Rightarrow> string \<Rightarrow> nat option" where
  "readDecimal acc [] = Some acc"
| "readDecimal acc (c # cs) =
     (case map_of (zip ''0123456789'' [0, 1, 2, 3, 4, 5, 6, 7, 8, 9]) c of
        None \<Rightarrow> None
      | Some d \<Rightarrow> readDecimal (10 * acc + d) cs)"

definition scanPlain :: "string \<Rightarrow> (64 word \<times> 64 word) option" where
  "scanPlain s =
     (case splitOn (CHR '':'') s of
        [a, b] \<Rightarrow>
          (if a = [] \<or> b = [] then None
           else (case (readDecimal 0 a, readDecimal 0 b) of
                   (Some x, Some y) \<Rightarrow>
                     if x < 2 ^ 64 \<and> y < 2 ^ 64 then Some (of_nat x, of_nat y) else None
                 | _ \<Rightarrow> None))
      | _ \<Rightarrow> None)"

section \<open>Observations on annotations and on the output\<close>

text \<open>An annotation on which \<open>String\<close> cannot panic: at most three indices of each kind.\<close>

definition okInfo :: "nodeInfo \<Rightarrow> bool" where
  "okInfo n = (length (dataRangeIndices n) \<le> 3 \<and> length (rangeIndices n) \<le> 3)"

definition okTable :: "nInfo \<Rightarrow> bool" where
  "okTable m = (\<forall>nd. okInfo (nInfoGet m nd))"

text \<open>The number of hidden placeholder nodes in an output.\<close>

definition hiddenCount :: "event list \<Rightarrow> nat" where
  "hiddenCount evs = length (filter (\<lambda>e. case e of HiddenOpen t \<Rightarrow> True | _ \<Rightarrow> False) evs)"

text \<open>The leaf indices of the leaf-data nodes of an output, in the order of emission.\<close>

definition leafDataIndices :: "event list \<Rightarrow> 64 word list" where
  "leafDataIndices evs =
     concat (map (\<lambda>e. case e of LeafDataNode p nd a \<Rightarrow> [Index nd] | _ \<Rightarrow> []) evs)"

text \<open>
  The node blocks of an output that are printed with an ephemeral annotation: the prefix
  and the node of each, in the order of emission.
\<close>

definition ephemeralNodes :: "event list \<Rightarrow> (string \<times> NodeID) list" where
  "ephemeralNodes evs =
     concat (map (\<lambda>e. case e of
                   LeafHash p nd a \<Rightarrow> (if ephemeral a then [(p, nd)] else [])
                 | LeafDataNode p nd a \<Rightarrow> (if ephemeral a then [(p, nd)] else [])
                 | InnerOpen p nd a \<Rightarrow> (if ephemeral a then [(p, nd)] else [])
                 | _ \<Rightarrow> []) evs)"

text \<open>The leaf indices a node covers, as natural numbers.\<close>

definition leavesUnder :: "NodeID \<Rightarrow> nat list" where
  "leavesUnder nd = [unat (fst (Coverage nd)) ..< unat (snd (Coverage nd))]"

text \<open>A leaf index that lies under a root of the decomposition which is collapsed.\<close>

definition collapsedLeaf :: "flags \<Rightarrow> 64 word \<Rightarrow> nat \<Rightarrow> bool" where
  "collapsedLeaf fl sz i =
     (\<exists>nd \<in> set (RangeNodes 0 sz). megaMode fl < Level nd \<and> i \<in> set (leavesUnder nd))"

text \<open>
  The nodes that claim C6 asks to be marked as proof nodes, in its words: every entry of
  the list except the entries inside \<open>[begin, end)\<close> when \<open>end - begin > 1\<close>, and then
  also the parent of the entry at \<open>end - 1\<close>.
\<close>

definition spec_proofMarked :: "NodeID list \<Rightarrow> int \<Rightarrow> int \<Rightarrow> NodeID list" where
  "spec_proofMarked ids begin end =
     map (\<lambda>i. ids ! i)
       (filter (\<lambda>i. \<not> (begin \<le> int i \<and> int i < end \<and> end - begin > 1)) [0..<length ids])
     @ (if end - begin > 1 then [Parent (ids ! nat (end - 1))] else [])"

text \<open>
  The range indices that claim C8 asks to be appended to the \<open>dataRangeIndices\<close> of leaf
  \<open>i\<close>: the positions of the ranges that contain \<open>i\<close>, in ascending order.
\<close>

definition spec_rangesOf :: "(64 word \<times> 64 word) list \<Rightarrow> 64 word \<Rightarrow> int list" where
  "spec_rangesOf rs i =
     map int (filter (\<lambda>ri. fst (rs ! ri) \<le> i \<and> i < snd (rs ! ri)) [0..<length rs])"

text \<open>A table that differs from another one in \<open>perfectRoot\<close> fields only.\<close>

definition onlyPerfectRoot :: "nInfo \<Rightarrow> nInfo \<Rightarrow> bool" where
  "onlyPerfectRoot m m' = (\<forall>x. \<exists>b. nInfoGet m' x = (nInfoGet m x)\<lparr>perfectRoot := b\<rparr>)"

text \<open>The leaf indices under a node, without the wrap-around of \<open>uint64\<close>.\<close>

definition natLeaves :: "NodeID \<Rightarrow> nat list" where
  "natLeaves nd = [unat (Index nd) * 2 ^ Level nd ..< (unat (Index nd) + 1) * 2 ^ Level nd]"

definition fitsWord :: "NodeID \<Rightarrow> bool" where
  "fitsWord nd = ((unat (Index nd) + 1) * 2 ^ Level nd < 2 ^ 64)"

text \<open>
  A piece of the ranges flag that \<open>parseRanges\<close> accepts: two fields, scanned to
  \<open>l\<close> and \<open>r\<close> with \<open>l \<le> r \<le> treeSize\<close>.
\<close>

definition goodPiece :: "(string \<Rightarrow> (64 word \<times> 64 word) option) \<Rightarrow> 64 word \<Rightarrow> string \<Rightarrow> bool" where
  "goodPiece scan ts p =
     (length (splitOn (CHR '':'') p) = 2 \<and> (\<exists>l r. scan p = Some (l, r) \<and> r \<le> ts \<and> l \<le> r))"

text \<open>
  The joining nodes that claim C3 asks for, in its words: one for each pair of consecutive
  roots, the parent of the first root of the pair, opened at one more level of nesting
  than the one before, and none after the last root.
\<close>

fun spec_joiningNodes :: "string \<Rightarrow> NodeID list \<Rightarrow> (string \<times> NodeID) list" where
  "spec_joiningNodes prefix [] = []"
| "spec_joiningNodes prefix [r] = []"
| "spec_joiningNodes prefix (r # rest) = (prefix, Parent r) # spec_joiningNodes (prefix @ '' '') rest"

text \<open>
  The nesting that claim C3 asks for, in its words: the joining node of a root is marked
  ephemeral and opened before the root is rendered, the remaining roots are rendered inside
  it, and it is closed after them, so that the blocks close in the reverse order of their
  opening; the last root has no joining node.
\<close>

fun spec_renderNested :: "flags \<Rightarrow> string \<Rightarrow> NodeID list \<Rightarrow> nInfo \<Rightarrow> error + (event list \<times> nInfo)" where
  "spec_renderNested fl prefix [] m = Inr ([], m)"
| "spec_renderNested fl prefix [r] m = perfect fl (prefix @ '' '') r m"
| "spec_renderNested fl prefix (r # rest) m =
     (let m1 = modifyNodeInfo (Parent r) (\<lambda>n. n\<lparr>ephemeral := True\<rparr>) m
      in case openInnerNode fl prefix (Parent r) m1 of
           Inl e \<Rightarrow> Inl e
         | Inr (opened, closer) \<Rightarrow>
             (case perfect fl (prefix @ '' '') r m1 of
                Inl e \<Rightarrow> Inl e
              | Inr (out1, m2) \<Rightarrow>
                  (case spec_renderNested fl (prefix @ '' '') rest m2 of
                     Inl e \<Rightarrow> Inl e
                   | Inr (out2, m3) \<Rightarrow> Inr (opened # out1 @ out2 @ [closer], m3))))"

section \<open>Frame properties of the annotation table\<close>

lemma nInfoGet_modify_same: "nInfoGet (modifyNodeInfo nd f m) nd = f (nInfoGet m nd)"
  by (simp add: nInfoGet_def modifyNodeInfo_def)

lemma nInfoGet_modify_other: "nd' \<noteq> nd \<Longrightarrow> nInfoGet (modifyNodeInfo nd f m) nd' = nInfoGet m nd'"
  by (simp add: nInfoGet_def modifyNodeInfo_def)

lemma nInfoGet_modify:
  "nInfoGet (modifyNodeInfo nd f m) nd' = (if nd' = nd then f (nInfoGet m nd) else nInfoGet m nd')"
  by (simp add: nInfoGet_def modifyNodeInfo_def)

text \<open>
  Claim C10. An update of the annotation table is a read-modify-write of one entry:
  \<open>modifyNodeInfo\<close> for a node replaces that node's record by the operation applied to
  the record read (the zero record when absent) and leaves the entry of every other node
  as it was. Each of the six marking operations of the program sets one field and keeps
  the others: marking a node ephemeral keeps the range indices appended before, and
  appending a range index keeps the ephemeral mark set before.
\<close>

theorem modifyNodeInfo_frame:
  "nInfoGet (modifyNodeInfo nd f m) nd = f (nInfoGet m nd)
   \<and> (\<forall>nd'. nd' \<noteq> nd \<longrightarrow> modifyNodeInfo nd f m nd' = m nd')
   \<and> nInfoGet (modifyNodeInfo nd (\<lambda>n. n\<lparr>perfectRoot := isTop\<rparr>) m) nd = (nInfoGet m nd)\<lparr>perfectRoot := isTop\<rparr>
   \<and> nInfoGet (modifyNodeInfo nd (\<lambda>n. n\<lparr>ephemeral := True\<rparr>) m) nd = (nInfoGet m nd)\<lparr>ephemeral := True\<rparr>
   \<and> nInfoGet (modifyNodeInfo nd (\<lambda>n. n\<lparr>incPath := True\<rparr>) m) nd = (nInfoGet m nd)\<lparr>incPath := True\<rparr>
   \<and> nInfoGet (modifyNodeInfo nd (\<lambda>n. n\<lparr>proof' := True\<rparr>) m) nd = (nInfoGet m nd)\<lparr>proof' := True\<rparr>
   \<and> nInfoGet (modifyNodeInfo nd (\<lambda>n. n\<lparr>dataRangeIndices := dataRangeIndices n @ [ri]\<rparr>) m) nd
       = (nInfoGet m nd)\<lparr>dataRangeIndices := dataRangeIndices (nInfoGet m nd) @ [ri]\<rparr>
   \<and> nInfoGet (modifyNodeInfo nd (\<lambda>n. n\<lparr>rangeIndices := rangeIndices n @ [ri]\<rparr>) m) nd
       = (nInfoGet m nd)\<lparr>rangeIndices := rangeIndices (nInfoGet m nd) @ [ri]\<rparr>
   \<and> rangeIndices (nInfoGet (modifyNodeInfo nd (\<lambda>n. n\<lparr>ephemeral := True\<rparr>)
        (modifyNodeInfo nd (\<lambda>n. n\<lparr>rangeIndices := rangeIndices n @ [ri]\<rparr>) m)) nd)
       = rangeIndices (nInfoGet m nd) @ [ri]
   \<and> ephemeral (nInfoGet (modifyNodeInfo nd (\<lambda>n. n\<lparr>rangeIndices := rangeIndices n @ [ri]\<rparr>)
        (modifyNodeInfo nd (\<lambda>n. n\<lparr>ephemeral := True\<rparr>) m)) nd)"
  by (simp add: nInfoGet_def modifyNodeInfo_def)

theorem modifyNodeInfo_frame_witness:
  "nInfoGet (modifyNodeInfo (NewNodeID 3 0) (\<lambda>n. n\<lparr>ephemeral := True\<rparr>) Map.empty) (NewNodeID 3 0)
     = zeroInfo\<lparr>ephemeral := True\<rparr>
   \<and> NewNodeID 2 0 \<noteq> NewNodeID 3 0
   \<and> modifyNodeInfo (NewNodeID 3 0) (\<lambda>n. n\<lparr>ephemeral := True\<rparr>) Map.empty (NewNodeID 2 0) = None"
  using modifyNodeInfo_frame [of "NewNodeID 3 0" "\<lambda>n. n\<lparr>ephemeral := True\<rparr>" Map.empty]
  by (simp add: NewNodeID_def nInfoGet_def)

section \<open>Style resolution\<close>

lemma bandAttrs_ok: "i + length xs \<le> 3 \<Longrightarrow> \<exists>as. bandAttrs pal i xs = Inr as"
proof (induction xs arbitrary: i)
  case Nil
  show ?case by simp
next
  case (Cons x xs)
  then have "Suc i + length xs \<le> 3" by simp
  from Cons.IH [OF this] obtain as where "bandAttrs pal (Suc i) xs = Inr as" by blast
  moreover have "i < length posNames" using Cons.prems by (simp add: posNames_def)
  ultimately show ?case by simp
qed

lemma rangeAttrs_ok: "okInfo n \<Longrightarrow> \<exists>as. rangeAttrs n = Inr as"
  using bandAttrs_ok [of 0 "dataRangeIndices n" "''target''"]
        bandAttrs_ok [of 0 "rangeIndices n" "''range''"]
  by (simp add: rangeAttrs_def okInfo_def)

lemma String_ok: "okInfo n \<Longrightarrow> \<exists>s. nodeInfo_String fl n = Inr s"
  using rangeAttrs_ok [of n] by (auto simp: nodeInfo_String_def)

lemma okInfo_updates [simp]:
  "okInfo (n\<lparr>perfectRoot := b\<rparr>) = okInfo n"
  "okInfo (n\<lparr>incPath := b\<rparr>) = okInfo n"
  "okInfo (n\<lparr>leaf := b\<rparr>) = okInfo n"
  "okInfo (n\<lparr>proof' := b\<rparr>) = okInfo n"
  "okInfo (n\<lparr>target := b\<rparr>) = okInfo n"
  "okInfo (n\<lparr>ephemeral := b\<rparr>) = okInfo n"
  by (simp_all add: okInfo_def)

lemma okInfo_zeroInfo [simp]: "okInfo zeroInfo"
  by (simp add: okInfo_def zeroInfo_def)

text \<open>
  Claim C4, as stated, fails: a proof node with one range index is filled with the colour
  of the range, not with the proof colour.
\<close>

theorem proof_fill_overridden:
  "proof' (zeroInfo\<lparr>proof' := True, rangeIndices := [0]\<rparr>)
   \<and> fillOf (zeroInfo\<lparr>proof' := True, rangeIndices := [0]\<rparr>) = ''range0!50''
   \<and> fillOf (zeroInfo\<lparr>proof' := True, rangeIndices := [0]\<rparr>) \<noteq> ''proof''"
  by (simp add: zeroInfo_def fillOf_def showInt_def)

text \<open>
  Claim C4, amended. For a proof node that is neither a target nor on the inclusion path,
  the fill is the proof colour, the lighter shade when the node is ephemeral too, unless
  the list of range indices that applies (\<open>dataRangeIndices\<close> for a leaf-data node,
  \<open>rangeIndices\<close> otherwise) has exactly one entry: then the colour of that range is the
  fill. The fill of a single range overrides the proof fill, not the reverse.
\<close>

theorem fillOf_proof:
  assumes "proof' n" and "\<not> target n" and "\<not> incPath n"
  shows "fillOf n =
     (if leaf n \<and> length (dataRangeIndices n) = 1
        then ''target'' @ showInt (dataRangeIndices n ! 0) @ ''!50''
      else if \<not> leaf n \<and> length (rangeIndices n) = 1
        then ''range'' @ showInt (rangeIndices n ! 0) @ ''!50''
      else if ephemeral n then ''proof_ephemeral'' else ''proof'')"
  using assms by (simp add: fillOf_def Let_def)

theorem fillOf_proof_witness:
  "proof' (zeroInfo\<lparr>proof' := True, ephemeral := True, rangeIndices := [0, 1]\<rparr>)
   \<and> \<not> target (zeroInfo\<lparr>proof' := True, ephemeral := True, rangeIndices := [0, 1]\<rparr>)
   \<and> \<not> incPath (zeroInfo\<lparr>proof' := True, ephemeral := True, rangeIndices := [0, 1]\<rparr>)
   \<and> fillOf (zeroInfo\<lparr>proof' := True, ephemeral := True, rangeIndices := [0, 1]\<rparr>) = ''proof_ephemeral''"
  using fillOf_proof [of "zeroInfo\<lparr>proof' := True, ephemeral := True, rangeIndices := [0, 1]\<rparr>"]
  by (simp add: zeroInfo_def)

lemma fillOf_no_incPath: "\<not> incPath n \<Longrightarrow> fillOf n \<noteq> ''target_path''"
proof -
  assume a: "\<not> incPath n"
  have l: "last (fillOf n) \<noteq> CHR ''h''"
    using a by (simp add: fillOf_def Let_def)
  show ?thesis
  proof
    assume "fillOf n = ''target_path''"
    then have "last (fillOf n) = last ''target_path''" by simp
    with l show False by simp
  qed
qed

section \<open>Leaves and inner nodes\<close>

lemma drawLeaf_eq:
  assumes "okInfo (nInfoGet m (NewNodeID 0 index))"
  shows "drawLeaf fl prefix index m =
     Inr [LeafHash prefix (NewNodeID 0 index)
            (if dataRangeIndices (nInfoGet m (NewNodeID 0 index)) \<noteq> []
             then (nInfoGet m (NewNodeID 0 index))\<lparr>incPath := False\<rparr>
             else nInfoGet m (NewNodeID 0 index)),
          LeafDataNode prefix (NewNodeID 0 index)
            ((nInfoGet m (NewNodeID 0 index))\<lparr>leaf := True, proof' := False, incPath := False,
               target := incPath (nInfoGet m (NewNodeID 0 index))\<rparr>)]"
proof -
  let ?a0 = "nInfoGet m (NewNodeID 0 index)"
  obtain s1 where s1: "nodeInfo_String fl ?a0 = Inr s1" using String_ok assms by blast
  obtain s2 where s2: "nodeInfo_String fl (?a0\<lparr>incPath := False\<rparr>) = Inr s2"
    using String_ok [of "?a0\<lparr>incPath := False\<rparr>"] assms by auto
  obtain s3 where s3: "nodeInfo_String fl (?a0\<lparr>leaf := True, proof' := False, incPath := False,
               target := incPath ?a0\<rparr>) = Inr s3"
    using String_ok [of "?a0\<lparr>leaf := True, proof' := False, incPath := False,
               target := incPath ?a0\<rparr>"] assms by auto
  show ?thesis using s1 s2 s3 by (simp add: drawLeaf_def Let_def)
qed

lemma openInnerNode_eq:
  "okInfo (nInfoGet m nd) \<Longrightarrow>
   openInnerNode fl prefix nd m = Inr (InnerOpen prefix nd (nInfoGet m nd), InnerClose prefix)"
  using String_ok [of "nInfoGet m nd" fl] by (auto simp: openInnerNode_def)

text \<open>
  Claim C7, as stated, fails in its words "in favor of its range coloring": for a leaf on
  the inclusion path whose annotation has \<open>dataRangeIndices = [0]\<close> (as leaf 2 of a tree
  of 8 leaves with the range 2:5 has), the leaf-hash node is printed with the fill
  \<open>white\<close>, since \<open>String\<close> reads \<open>rangeIndices\<close> for it, and the leaf-data node below it
  with the fill \<open>target\<close>: neither shows the colour of the range.
\<close>

theorem leaf_hash_not_range_colored:
  "drawLeaf defaultFlags [] 2 [NewNodeID 0 2 \<mapsto> zeroInfo\<lparr>incPath := True, dataRangeIndices := [0]\<rparr>]
     = Inr [LeafHash [] (NewNodeID 0 2) (zeroInfo\<lparr>dataRangeIndices := [0]\<rparr>),
            LeafDataNode [] (NewNodeID 0 2) (zeroInfo\<lparr>target := True, leaf := True, dataRangeIndices := [0]\<rparr>)]
   \<and> fillOf (zeroInfo\<lparr>dataRangeIndices := [0]\<rparr>) = ''white''
   \<and> fillOf (zeroInfo\<lparr>target := True, leaf := True, dataRangeIndices := [0]\<rparr>) = ''target''"
proof -
  have o: "okInfo (nInfoGet [NewNodeID 0 2 \<mapsto> zeroInfo\<lparr>incPath := True, dataRangeIndices := [0]\<rparr>]
             (NewNodeID 0 2))"
    by (simp add: nInfoGet_def okInfo_def zeroInfo_def)
  show ?thesis
    using drawLeaf_eq [OF o, of defaultFlags "[]"]
    by (simp add: nInfoGet_def zeroInfo_def fillOf_def Let_def)
qed

text \<open>
  Claim C7, amended. When the annotation of a leaf has a nonempty \<open>dataRangeIndices\<close>,
  \<open>drawLeaf\<close> prints the leaf-hash node with the annotation in which \<open>incPath\<close> is false:
  its fill is not the colour of the inclusion path but the fill the other fields give,
  which (for a table entry with \<open>leaf\<close> and \<open>target\<close> unset, as every entry of the table
  is) is the colour of the single \<open>rangeIndices\<close> entry if there is exactly one, else the
  proof colour if \<open>proof\<close> is set, else white; \<open>dataRangeIndices\<close> does not colour the
  leaf-hash node. The leaf-data node below it is filled with the target colour when the
  leaf is on the inclusion path, and otherwise with the colour of the single
  \<open>dataRangeIndices\<close> entry if there is exactly one, else white. An inner node is printed
  with its annotation as it is in the table, and when \<open>incPath\<close> is set there its fill is
  the colour of the inclusion path, whatever its range indices are. (The annotations are
  such that \<open>String\<close> does not panic.)
\<close>

theorem leaf_hash_incPath_suppressed:
  assumes "okInfo (nInfoGet m (NewNodeID 0 index))"
      and "okInfo (nInfoGet m nd)"
  shows "(dataRangeIndices (nInfoGet m (NewNodeID 0 index)) \<noteq> [] \<longrightarrow>
           drawLeaf fl prefix index m =
             Inr [LeafHash prefix (NewNodeID 0 index) ((nInfoGet m (NewNodeID 0 index))\<lparr>incPath := False\<rparr>),
                  LeafDataNode prefix (NewNodeID 0 index)
                    ((nInfoGet m (NewNodeID 0 index))\<lparr>leaf := True, proof' := False, incPath := False,
                       target := incPath (nInfoGet m (NewNodeID 0 index))\<rparr>)]
           \<and> fillOf ((nInfoGet m (NewNodeID 0 index))\<lparr>incPath := False\<rparr>) \<noteq> ''target_path''
           \<and> (\<not> leaf (nInfoGet m (NewNodeID 0 index)) \<and> \<not> target (nInfoGet m (NewNodeID 0 index)) \<longrightarrow>
                fillOf ((nInfoGet m (NewNodeID 0 index))\<lparr>incPath := False\<rparr>) =
                  (if length (rangeIndices (nInfoGet m (NewNodeID 0 index))) = 1
                     then ''range'' @ showInt (rangeIndices (nInfoGet m (NewNodeID 0 index)) ! 0) @ ''!50''
                   else if proof' (nInfoGet m (NewNodeID 0 index))
                     then (if ephemeral (nInfoGet m (NewNodeID 0 index)) then ''proof_ephemeral'' else ''proof'')
                   else ''white''))
           \<and> fillOf ((nInfoGet m (NewNodeID 0 index))\<lparr>leaf := True, proof' := False, incPath := False,
                       target := incPath (nInfoGet m (NewNodeID 0 index))\<rparr>) =
                  (if incPath (nInfoGet m (NewNodeID 0 index)) then ''target''
                   else if length (dataRangeIndices (nInfoGet m (NewNodeID 0 index))) = 1
                     then ''target'' @ showInt (dataRangeIndices (nInfoGet m (NewNodeID 0 index)) ! 0) @ ''!50''
                   else ''white''))
       \<and> openInnerNode fl prefix nd m = Inr (InnerOpen prefix nd (nInfoGet m nd), InnerClose prefix)
       \<and> (incPath (nInfoGet m nd) \<longrightarrow> fillOf (nInfoGet m nd) = ''target_path'')"
  using drawLeaf_eq [OF assms(1), of fl prefix] openInnerNode_eq [OF assms(2), of fl prefix]
        fillOf_no_incPath [of "(nInfoGet m (NewNodeID 0 index))\<lparr>incPath := False\<rparr>"]
  by (simp add: fillOf_def Let_def)

theorem leaf_hash_incPath_suppressed_witness:
  "okInfo (nInfoGet [NewNodeID 0 4 \<mapsto> zeroInfo\<lparr>incPath := True, dataRangeIndices := [0], rangeIndices := [0]\<rparr>,
                     NewNodeID 1 1 \<mapsto> zeroInfo\<lparr>incPath := True, rangeIndices := [0]\<rparr>] (NewNodeID 0 4))
   \<and> okInfo (nInfoGet [NewNodeID 0 4 \<mapsto> zeroInfo\<lparr>incPath := True, dataRangeIndices := [0], rangeIndices := [0]\<rparr>,
                     NewNodeID 1 1 \<mapsto> zeroInfo\<lparr>incPath := True, rangeIndices := [0]\<rparr>] (NewNodeID 1 1))
   \<and> drawLeaf defaultFlags [] 4
        [NewNodeID 0 4 \<mapsto> zeroInfo\<lparr>incPath := True, dataRangeIndices := [0], rangeIndices := [0]\<rparr>,
         NewNodeID 1 1 \<mapsto> zeroInfo\<lparr>incPath := True, rangeIndices := [0]\<rparr>]
      = Inr [LeafHash [] (NewNodeID 0 4) (zeroInfo\<lparr>dataRangeIndices := [0], rangeIndices := [0]\<rparr>),
             LeafDataNode [] (NewNodeID 0 4)
               (zeroInfo\<lparr>target := True, leaf := True, dataRangeIndices := [0], rangeIndices := [0]\<rparr>)]
   \<and> fillOf (zeroInfo\<lparr>dataRangeIndices := [0], rangeIndices := [0]\<rparr>) \<noteq> ''target_path''
   \<and> fillOf (zeroInfo\<lparr>dataRangeIndices := [0], rangeIndices := [0]\<rparr>) = ''range0!50''
   \<and> fillOf (zeroInfo\<lparr>target := True, leaf := True, dataRangeIndices := [0], rangeIndices := [0]\<rparr>) = ''target''
   \<and> openInnerNode defaultFlags [] (NewNodeID 1 1)
        [NewNodeID 0 4 \<mapsto> zeroInfo\<lparr>incPath := True, dataRangeIndices := [0], rangeIndices := [0]\<rparr>,
         NewNodeID 1 1 \<mapsto> zeroInfo\<lparr>incPath := True, rangeIndices := [0]\<rparr>]
      = Inr (InnerOpen [] (NewNodeID 1 1) (zeroInfo\<lparr>incPath := True, rangeIndices := [0]\<rparr>), InnerClose [])
   \<and> fillOf (zeroInfo\<lparr>incPath := True, rangeIndices := [0]\<rparr>) = ''target_path''"
  using leaf_hash_incPath_suppressed
          [of "[NewNodeID 0 4 \<mapsto> zeroInfo\<lparr>incPath := True, dataRangeIndices := [0], rangeIndices := [0]\<rparr>,
                NewNodeID 1 1 \<mapsto> zeroInfo\<lparr>incPath := True, rangeIndices := [0]\<rparr>]"
              4 "NewNodeID 1 1" defaultFlags "[]"]
  by (simp add: nInfoGet_def NewNodeID_def okInfo_def zeroInfo_def showInt_def)

section \<open>Collapsed subtrees\<close>

lemma hiddenNodes_eq: "hiddenNodes i = (map HiddenOpen (rev [1..i]), replicate (nat i) HiddenClose)"
proof (induction i rule: hiddenNodes.induct)
  case (1 i)
  show ?case
  proof (cases "i > 0")
    case True
    then have r: "[1..i] = [1..i - 1] @ [i]" by (simp add: upto_rec2)
    have n: "nat i = Suc (nat (i - 1))" using True by simp
    show ?thesis using True 1 [OF True]
      by (subst hiddenNodes.simps) (simp add: r n)
  next
    case False
    then show ?thesis by (subst hiddenNodes.simps) simp
  qed
qed

lemma perfectMega_eq:
  "perfectMega fl prefix nd =
     [MegaBlock prefix (fst (Coverage nd)) (snd (Coverage nd)) (snd (Coverage nd) - fst (Coverage nd)) (treeSize fl),
      MegaIndent prefix]
     @ map HiddenOpen (rev [1..int (Level nd) - 2]) @ replicate (Level nd - 2) HiddenClose"
  by (simp add: perfectMega_def hiddenNodes_eq split_beta Let_def nat_diff_distrib')

lemma perfectInner_mega_eq:
  assumes "megaMode fl < Level nd" and "okInfo (nInfoGet m nd)"
  shows "perfectInner fl prefix nd isTop m =
     Inr ([InnerOpen prefix nd ((nInfoGet m nd)\<lparr>perfectRoot := isTop\<rparr>),
           MegaBlock prefix (fst (Coverage nd)) (snd (Coverage nd))
             (snd (Coverage nd) - fst (Coverage nd)) (treeSize fl),
           MegaIndent prefix]
          @ map HiddenOpen (rev [1..int (Level nd) - 2])
          @ replicate (Level nd - 2) HiddenClose
          @ [InnerClose prefix],
          modifyNodeInfo nd (\<lambda>n. n\<lparr>perfectRoot := isTop\<rparr>) m)"
proof -
  obtain s where "nodeInfo_String fl ((nInfoGet m nd)\<lparr>perfectRoot := isTop\<rparr>) = Inr s"
    using String_ok [of "(nInfoGet m nd)\<lparr>perfectRoot := isTop\<rparr>" fl] assms(2) by auto
  then show ?thesis using assms(1)
    by (subst perfectInner.simps)
       (simp add: Let_def openInnerNode_def nInfoGet_modify_same perfectMega_eq)
qed

text \<open>
  Claim C2, as stated, fails: the root of level 5 of a tree of 32 leaves, with the default
  threshold 4, is printed with three hidden placeholder nodes, not with \<open>5 - 1\<close>.
\<close>

theorem perfectInner_hidden_count:
  "map_sum id fst (perfectInner (defaultFlags\<lparr>treeSize := 32\<rparr>) [] (NewNodeID 5 0) True Map.empty)
     = Inr [InnerOpen [] (NewNodeID 5 0) (zeroInfo\<lparr>perfectRoot := True\<rparr>),
            MegaBlock [] 0 32 32 32, MegaIndent [],
            HiddenOpen 3, HiddenOpen 2, HiddenOpen 1,
            HiddenClose, HiddenClose, HiddenClose, InnerClose []]
   \<and> hiddenCount [InnerOpen [] (NewNodeID 5 0) (zeroInfo\<lparr>perfectRoot := True\<rparr>),
            MegaBlock [] 0 32 32 32, MegaIndent [],
            HiddenOpen 3, HiddenOpen 2, HiddenOpen 1,
            HiddenClose, HiddenClose, HiddenClose, InnerClose []] \<noteq> 5 - 1"
  using perfectInner_mega_eq [of "defaultFlags\<lparr>treeSize := 32\<rparr>" "NewNodeID 5 0" Map.empty "[]" True]
  by (simp add: defaultFlags_def NewNodeID_def okInfo_def nInfoGet_def zeroInfo_def Coverage_def
        hiddenCount_def upto.simps eval_nat_numeral)

text \<open>
  Claim C2, amended. A perfect subtree root whose level is above the threshold is printed
  as its own opening block, one collapsed block with the covered range \<open>begin\<close>, \<open>end\<close>,
  the leaf count \<open>end - begin\<close> and the tree size that divides it for the width, then
  hidden placeholder nodes for the tiers \<open>level - 2\<close> down to 1 (that is \<open>level - 2\<close> of
  them, none for a level below 3), their closing brackets, and the closing of the block:
  no node below the root is printed, and the table changes only in the \<open>perfectRoot\<close> field
  of the root. (The annotation of the root is such that \<open>String\<close> does not panic.)
\<close>

theorem perfectInner_collapses:
  assumes "megaMode fl < Level nd" and "okInfo (nInfoGet m nd)"
  shows "perfectInner fl prefix nd isTop m =
     Inr ([InnerOpen prefix nd ((nInfoGet m nd)\<lparr>perfectRoot := isTop\<rparr>),
           MegaBlock prefix (fst (Coverage nd)) (snd (Coverage nd))
             (snd (Coverage nd) - fst (Coverage nd)) (treeSize fl),
           MegaIndent prefix]
          @ map HiddenOpen (rev [1..int (Level nd) - 2])
          @ replicate (Level nd - 2) HiddenClose
          @ [InnerClose prefix],
          modifyNodeInfo nd (\<lambda>n. n\<lparr>perfectRoot := isTop\<rparr>) m)"
  using assms by (rule perfectInner_mega_eq)

theorem perfectInner_collapses_witness:
  "megaMode defaultFlags < Level (NewNodeID 6 1)
   \<and> okInfo (nInfoGet Map.empty (NewNodeID 6 1))
   \<and> perfectInner defaultFlags [] (NewNodeID 6 1) True Map.empty =
       Inr ([InnerOpen [] (NewNodeID 6 1) (zeroInfo\<lparr>perfectRoot := True\<rparr>),
             MegaBlock [] 64 128 64 23, MegaIndent [],
             HiddenOpen 4, HiddenOpen 3, HiddenOpen 2, HiddenOpen 1,
             HiddenClose, HiddenClose, HiddenClose, HiddenClose, InnerClose []],
            modifyNodeInfo (NewNodeID 6 1) (\<lambda>n. n\<lparr>perfectRoot := True\<rparr>) Map.empty)"
  using perfectInner_collapses [of defaultFlags "NewNodeID 6 1" Map.empty "[]" True]
  by (simp add: defaultFlags_def NewNodeID_def okInfo_def nInfoGet_def zeroInfo_def Coverage_def
        upto.simps eval_nat_numeral)

section \<open>Ranges\<close>

lemma NewNodeID_sel [simp]: "Level (NewNodeID l i) = l" "Index (NewNodeID l i) = i"
  by (simp_all add: NewNodeID_def)

lemma NodeID_eq_iff: "(nd = NewNodeID l i) = (Level nd = l \<and> Index nd = i)"
  by (cases nd) (auto simp: NewNodeID_def)

lemma word_succ_le_iff:
  fixes i r x :: "64 word"
  assumes "i < r"
  shows "(i + 1 \<le> x) = (i < x)"
  using unat_word_succ_less [OF assms] by (simp add: word_le_nat_alt word_less_nat_alt Suc_le_eq)

lemma setLeaves_get:
  "nInfoGet (setLeaves ri i r m) nd =
     (if Level nd = 0 \<and> i \<le> Index nd \<and> Index nd < r
      then (nInfoGet m nd)\<lparr>dataRangeIndices := dataRangeIndices (nInfoGet m nd) @ [ri]\<rparr>
      else nInfoGet m nd)"
proof (induction ri i r m rule: setLeaves.induct)
  case (1 ri i r m)
  show ?case
  proof (cases "i < r")
    case True
    note ih = 1 [OF True]
    show ?thesis
    proof (cases "nd = NewNodeID 0 i")
      case True
      then have "\<not> i + 1 \<le> Index nd" using \<open>i < r\<close> by (simp add: word_succ_le_iff)
      then show ?thesis using True \<open>i < r\<close> ih
        by (subst setLeaves.simps) (simp add: nInfoGet_modify)
    next
      case False
      then have "(i \<le> Index nd) = (i < Index nd) \<or> Level nd \<noteq> 0"
        by (auto simp: NodeID_eq_iff)
      then show ?thesis using False \<open>i < r\<close> ih
        by (subst setLeaves.simps) (auto simp: nInfoGet_modify word_succ_le_iff)
    qed
  next
    case False
    then show ?thesis by (subst setLeaves.simps) auto
  qed
qed

lemma setRangeNodes_data:
  "dataRangeIndices (nInfoGet (setRangeNodes ri ids m) nd) = dataRangeIndices (nInfoGet m nd)"
  by (induction ids arbitrary: m) (simp_all add: nInfoGet_modify)

lemma filter_upt_Suc:
  "filter P [0..<Suc n] = (if P 0 then [0] else []) @ map Suc (filter (\<lambda>j. P (Suc j)) [0..<n])"
proof -
  have "[0..<Suc n] = 0 # map Suc [0..<n]" by (simp add: upt_conv_Cons map_Suc_upt del: upt_Suc)
  then show ?thesis by (simp add: filter_map comp_def del: upt_Suc)
qed

lemma applyRanges_data:
  "dataRangeIndices (nInfoGet (applyRanges k rs m) (NewNodeID 0 i)) =
     dataRangeIndices (nInfoGet m (NewNodeID 0 i))
     @ map (\<lambda>j. int (k + j)) (filter (\<lambda>ri. fst (rs ! ri) \<le> i \<and> i < snd (rs ! ri)) [0..<length rs])"
proof (induction rs arbitrary: k m)
  case Nil
  show ?case by simp
next
  case (Cons lr rest)
  obtain l r where lr: "lr = (l, r)" by (cases lr)
  show ?case
    by (simp add: lr Cons.IH setRangeNodes_data setLeaves_get filter_upt_Suc comp_def
          del: upt_Suc)
qed

lemma parsePairs_ok:
  "\<forall>p \<in> set ps. goodPiece scan ts p \<Longrightarrow> parsePairs scan ts ps = Inr (map (the \<circ> scan) ps)"
  by (induction ps) (auto simp: goodPiece_def Let_def)

lemma parsePairs_err:
  "\<exists>p \<in> set ps. \<not> goodPiece scan ts p \<Longrightarrow> \<exists>e. parsePairs scan ts ps = Inl e"
proof (induction ps)
  case Nil
  then show ?case by simp
next
  case (Cons p ps)
  show ?case
  proof (cases "goodPiece scan ts p")
    case True
    then have "\<exists>q \<in> set ps. \<not> goodPiece scan ts q" using Cons.prems by auto
    from Cons.IH [OF this] obtain e where "parsePairs scan ts ps = Inl e" by blast
    then show ?thesis using True by (auto simp: goodPiece_def Let_def)
  next
    case False
    then show ?thesis
      by (auto simp: goodPiece_def Let_def not_le split: option.splits)
  qed
qed

text \<open>
  Claim C8. Let the pieces of the ranges flag each have two fields and scan to two
  numbers, and let \<open>rs\<close> be the ranges they scan to. If there are more than three, or
  one of them has \<open>lo > hi\<close> or \<open>hi > treeSize\<close>, then \<open>modifyRangeNodeInfo\<close> fails
  and \<open>main\<close> (with no leaf data to override the tree size) is aborted before its first
  print, with nothing on standard output. Otherwise \<open>modifyRangeNodeInfo\<close> succeeds, and
  the \<open>dataRangeIndices\<close> of every leaf \<open>i\<close> are the ones before followed by the
  positions of the ranges that contain \<open>i\<close>, in ascending order.
\<close>

theorem ranges_checked_and_applied:
  assumes "\<forall>p \<in> set (splitOn (CHR '','') (ranges fl)).
             length (splitOn (CHR '':'') p) = 2 \<and> scan p \<noteq> None"
  shows "let rs = map (the \<circ> scan) (splitOn (CHR '','') (ranges fl))
         in if length rs > 3 \<or> (\<exists>(l, r) \<in> set rs. l > r \<or> r > treeSize fl)
            then (\<exists>e. modifyRangeNodeInfo scan fl m = Inl e)
                 \<and> (leafData fl = [] \<longrightarrow>
                      (\<exists>a. main scan incl fl = Aborted a) \<and> stdout (main scan incl fl) = Some [])
            else modifyRangeNodeInfo scan fl m = Inr (applyRanges 0 rs m)
                 \<and> (\<forall>i. dataRangeIndices (nInfoGet (applyRanges 0 rs m) (NewNodeID 0 i)) =
                           dataRangeIndices (nInfoGet m (NewNodeID 0 i)) @ spec_rangesOf rs i)"
proof -
  let ?ps = "splitOn (CHR '','') (ranges fl)"
  let ?rs = "map (the \<circ> scan) ?ps"
  let ?bad = "length ?rs > 3 \<or> (\<exists>(l, r) \<in> set ?rs. l > r \<or> r > treeSize fl)"
  have good: "goodPiece scan (treeSize fl) p = (\<not> (case the (scan p) of (l, r) \<Rightarrow> l > r \<or> r > treeSize fl))"
    if "p \<in> set ?ps" for p
    using assms that by (auto simp: goodPiece_def not_le)
  have nonempty: "ranges fl \<noteq> []"
  proof
    assume "ranges fl = []"
    then have "[] \<in> set ?ps" by simp
    with assms have "length (splitOn (CHR '':'') []) = 2" by blast
    then show False by simp
  qed
  show ?thesis
  proof (cases ?bad)
    case True
    have err: "\<exists>e. modifyRangeNodeInfo scan fl m' = Inl e" for m'
    proof (cases "length ?ps > 3")
      case True
      then show ?thesis by (simp add: modifyRangeNodeInfo_def parseRanges_def maxRanges_def Let_def)
    next
      case False
      with \<open>?bad\<close> have "\<exists>p \<in> set ?ps. \<not> goodPiece scan (treeSize fl) p"
        using good by auto
      from parsePairs_err [OF this] obtain e where "parsePairs scan (treeSize fl) ?ps = Inl e" by blast
      then show ?thesis using False
        by (simp add: modifyRangeNodeInfo_def parseRanges_def maxRanges_def Let_def)
    qed
    have ab: "\<exists>a. annotate scan incl fl = Inl a" if "leafData fl = []"
    proof (cases "markInclusion incl fl (Len64 (treeSize fl - 1) + 1) Map.empty")
      case (Inl a)
      then show ?thesis using that by (simp add: annotate_def Let_def)
    next
      case (Inr m3)
      obtain e where "modifyRangeNodeInfo scan fl m3 = Inl e" using err by blast
      then show ?thesis using that Inr nonempty by (simp add: annotate_def Let_def)
    qed
    have "leafData fl = [] \<longrightarrow> (\<exists>a. main scan incl fl = Aborted a) \<and> stdout (main scan incl fl) = Some []"
      using ab by (auto simp: main_def)
    then show ?thesis using True err [of m] by (simp add: Let_def)
  next
    case False
    then have "\<forall>p \<in> set ?ps. goodPiece scan (treeSize fl) p" using good by auto
    from parsePairs_ok [OF this] have "parsePairs scan (treeSize fl) ?ps = Inr ?rs" .
    then have "modifyRangeNodeInfo scan fl m = Inr (applyRanges 0 ?rs m)"
      using False by (simp add: modifyRangeNodeInfo_def parseRanges_def maxRanges_def Let_def)
    then show ?thesis using False
      by (simp add: Let_def applyRanges_data [where k = 0, simplified] spec_rangesOf_def)
  qed
qed

theorem ranges_checked_and_applied_witness:
  "splitOn (CHR '','') (ranges (defaultFlags\<lparr>treeSize := 8, ranges := ''2:5,1:3''\<rparr>)) = [''2:5'', ''1:3'']
   \<and> length (splitOn (CHR '':'') ''2:5'') = 2 \<and> scanPlain ''2:5'' = Some (2, 5)
   \<and> length (splitOn (CHR '':'') ''1:3'') = 2 \<and> scanPlain ''1:3'' = Some (1, 3)
   \<and> modifyRangeNodeInfo scanPlain (defaultFlags\<lparr>treeSize := 8, ranges := ''2:5,1:3''\<rparr>) Map.empty
       = Inr (applyRanges 0 [(2, 5), (1, 3)] Map.empty)
   \<and> dataRangeIndices (nInfoGet (applyRanges 0 [(2, 5), (1, 3)] Map.empty) (NewNodeID 0 2)) = [0, 1]
   \<and> dataRangeIndices (nInfoGet (applyRanges 0 [(2, 5), (1, 3)] Map.empty) (NewNodeID 0 4)) = [0]
   \<and> dataRangeIndices (nInfoGet (applyRanges 0 [(2, 5), (1, 3)] Map.empty) (NewNodeID 0 5)) = []"
proof -
  have ps: "splitOn (CHR '','') ''2:5,1:3'' = [''2:5'', ''1:3'']" by simp
  have s1: "scanPlain ''2:5'' = Some (2, 5)" by (simp add: scanPlain_def)
  have s2: "scanPlain ''1:3'' = Some (1, 3)" by (simp add: scanPlain_def)
  have syn: "\<forall>p \<in> set (splitOn (CHR '','') (ranges (defaultFlags\<lparr>treeSize := 8, ranges := ''2:5,1:3''\<rparr>))).
      length (splitOn (CHR '':'') p) = 2 \<and> scanPlain p \<noteq> None"
    by (simp add: ps s1 s2)
  have z: "nInfoGet Map.empty nd = zeroInfo" for nd by (simp add: nInfoGet_def)
  show ?thesis
    using syn ranges_checked_and_applied [OF syn, of Map.empty "\<lambda>i s. None"]
    by (simp add: ps s1 s2 Let_def defaultFlags_def spec_rangesOf_def z zeroInfo_def upt_rec)
qed

section \<open>Perfect subtrees\<close>

lemma onlyPerfectRoot_refl: "onlyPerfectRoot m m"
  unfolding onlyPerfectRoot_def
proof
  fix x
  have "nInfoGet m x = (nInfoGet m x)\<lparr>perfectRoot := perfectRoot (nInfoGet m x)\<rparr>" by simp
  then show "\<exists>b. nInfoGet m x = (nInfoGet m x)\<lparr>perfectRoot := b\<rparr>" by blast
qed

lemma onlyPerfectRoot_trans:
  assumes "onlyPerfectRoot m m1" and "onlyPerfectRoot m1 m2"
  shows "onlyPerfectRoot m m2"
  unfolding onlyPerfectRoot_def
proof
  fix x
  obtain b where b: "nInfoGet m1 x = (nInfoGet m x)\<lparr>perfectRoot := b\<rparr>"
    using assms(1) unfolding onlyPerfectRoot_def by blast
  obtain c where c: "nInfoGet m2 x = (nInfoGet m1 x)\<lparr>perfectRoot := c\<rparr>"
    using assms(2) unfolding onlyPerfectRoot_def by blast
  have "nInfoGet m2 x = (nInfoGet m x)\<lparr>perfectRoot := c\<rparr>" by (simp add: b c)
  then show "\<exists>b. nInfoGet m2 x = (nInfoGet m x)\<lparr>perfectRoot := b\<rparr>" by blast
qed

lemma onlyPerfectRoot_modify:
  "onlyPerfectRoot m (modifyNodeInfo nd (\<lambda>n. n\<lparr>perfectRoot := b\<rparr>) m)"
  unfolding onlyPerfectRoot_def
proof
  fix x
  show "\<exists>c. nInfoGet (modifyNodeInfo nd (\<lambda>n. n\<lparr>perfectRoot := b\<rparr>) m) x = (nInfoGet m x)\<lparr>perfectRoot := c\<rparr>"
  proof (cases "x = nd")
    case True
    then show ?thesis by (auto simp: nInfoGet_modify)
  next
    case False
    have "nInfoGet m x = (nInfoGet m x)\<lparr>perfectRoot := perfectRoot (nInfoGet m x)\<rparr>" by simp
    then have "\<exists>c. nInfoGet m x = (nInfoGet m x)\<lparr>perfectRoot := c\<rparr>" by (rule exI)
    then show ?thesis using False by (simp add: nInfoGet_modify)
  qed
qed

lemma onlyPerfectRoot_ok: "onlyPerfectRoot m m' \<Longrightarrow> okTable m \<Longrightarrow> okTable m'"
  unfolding onlyPerfectRoot_def okTable_def
  by (metis okInfo_updates(1))

lemma onlyPerfectRoot_ephemeral:
  "onlyPerfectRoot m m' \<Longrightarrow> ephemeral (nInfoGet m' x) = ephemeral (nInfoGet m x)"
  unfolding onlyPerfectRoot_def
proof -
  assume "\<forall>x. \<exists>b. nInfoGet m' x = (nInfoGet m x)\<lparr>perfectRoot := b\<rparr>"
  then obtain b where "nInfoGet m' x = (nInfoGet m x)\<lparr>perfectRoot := b\<rparr>" by blast
  then show ?thesis by simp
qed

lemma leafDataIndices_simps [simp]:
  "leafDataIndices [] = []"
  "leafDataIndices (xs @ ys) = leafDataIndices xs @ leafDataIndices ys"
  "leafDataIndices (LeafDataNode p nd a # xs) = Index nd # leafDataIndices xs"
  "leafDataIndices (LeafHash p nd a # xs) = leafDataIndices xs"
  "leafDataIndices (InnerOpen p nd a # xs) = leafDataIndices xs"
  "leafDataIndices (InnerClose p # xs) = leafDataIndices xs"
  "leafDataIndices (MegaBlock p b e s t # xs) = leafDataIndices xs"
  "leafDataIndices (MegaIndent p # xs) = leafDataIndices xs"
  "leafDataIndices (HiddenOpen i # xs) = leafDataIndices xs"
  "leafDataIndices (HiddenClose # xs) = leafDataIndices xs"
  "leafDataIndices (PreambleText # xs) = leafDataIndices xs"
  "leafDataIndices (PostfixText # xs) = leafDataIndices xs"
  by (simp_all add: leafDataIndices_def)

lemma ephemeralNodes_simps [simp]:
  "ephemeralNodes [] = []"
  "ephemeralNodes (xs @ ys) = ephemeralNodes xs @ ephemeralNodes ys"
  "ephemeralNodes (LeafDataNode p nd a # xs) = (if ephemeral a then [(p, nd)] else []) @ ephemeralNodes xs"
  "ephemeralNodes (LeafHash p nd a # xs) = (if ephemeral a then [(p, nd)] else []) @ ephemeralNodes xs"
  "ephemeralNodes (InnerOpen p nd a # xs) = (if ephemeral a then [(p, nd)] else []) @ ephemeralNodes xs"
  "ephemeralNodes (InnerClose p # xs) = ephemeralNodes xs"
  "ephemeralNodes (MegaBlock p b e s t # xs) = ephemeralNodes xs"
  "ephemeralNodes (MegaIndent p # xs) = ephemeralNodes xs"
  "ephemeralNodes (HiddenOpen i # xs) = ephemeralNodes xs"
  "ephemeralNodes (HiddenClose # xs) = ephemeralNodes xs"
  "ephemeralNodes (PreambleText # xs) = ephemeralNodes xs"
  "ephemeralNodes (PostfixText # xs) = ephemeralNodes xs"
  by (simp_all add: ephemeralNodes_def)

lemma leafDataIndices_hidden [simp]:
  "leafDataIndices (map HiddenOpen ts) = []" "leafDataIndices (replicate k HiddenClose) = []"
  by (simp_all add: leafDataIndices_def)

lemma ephemeralNodes_hidden [simp]:
  "ephemeralNodes (map HiddenOpen ts) = []" "ephemeralNodes (replicate k HiddenClose) = []"
  by (simp_all add: ephemeralNodes_def)

lemma unat_child_left:
  fixes idx :: "64 word"
  assumes "(unat idx + 1) * 2 ^ Suc l < 2 ^ 64"
  shows "unat (idx * 2) = unat idx * 2"
proof -
  have "(2::nat) \<le> 2 ^ Suc l" by simp
  then have "(unat idx + 1) * 2 \<le> (unat idx + 1) * 2 ^ Suc l" by (rule mult_le_mono2)
  then have "unat idx * unat (2::64 word) < 2 ^ LENGTH(64)" using assms by simp
  then have "unat (idx * 2) = unat idx * unat (2::64 word)" by (simp only: unat_mult_lem)
  then show ?thesis by simp
qed

lemma unat_child_right:
  fixes idx :: "64 word"
  assumes "(unat idx + 1) * 2 ^ Suc l < 2 ^ 64"
  shows "unat (idx * 2 XOR 1) = unat idx * 2 + 1"
proof -
  have e: "idx * 2 XOR 1 = idx * 2 + 1" by (simp add: xor_one_eq)
  have "(2::nat) \<le> 2 ^ Suc l" by simp
  then have "(unat idx + 1) * 2 \<le> (unat idx + 1) * 2 ^ Suc l" by (rule mult_le_mono2)
  then have "unat (idx * 2) + unat (1::64 word) < 2 ^ LENGTH(64)"
    using assms unat_child_left [OF assms] by simp
  then have "unat (idx * 2 + 1) = unat (idx * 2) + unat (1::64 word)" by (simp only: unat_add_lem)
  then show ?thesis using e unat_child_left [OF assms] by simp
qed

lemma perfectInner_props:
  assumes "okTable m" and "(unat (Index nd) + 1) * 2 ^ Level nd < 2 ^ 64"
  shows "\<exists>evs m'. perfectInner fl prefix nd isTop m = Inr (evs, m')
           \<and> onlyPerfectRoot m m'
           \<and> map unat (leafDataIndices evs) =
               (if megaMode fl < Level nd then []
                else [unat (Index nd) * 2 ^ Level nd ..< (unat (Index nd) + 1) * 2 ^ Level nd])
           \<and> ((\<forall>x. Level x \<le> Level nd \<longrightarrow> \<not> ephemeral (nInfoGet m x)) \<longrightarrow> ephemeralNodes evs = [])"
  using assms
proof (induction l \<equiv> "Level nd" arbitrary: nd prefix isTop m)
  case 0
  let ?m = "modifyNodeInfo nd (\<lambda>n. n\<lparr>perfectRoot := isTop\<rparr>) m"
  have nd: "NewNodeID 0 (Index nd) = nd" using 0(1) by (cases nd) (simp add: NewNodeID_def)
  have ok: "okTable ?m" using onlyPerfectRoot_ok [OF onlyPerfectRoot_modify] 0(2) .
  then have "okInfo (nInfoGet ?m (NewNodeID 0 (Index nd)))" by (simp add: okTable_def)
  note dl = drawLeaf_eq [OF this, of fl prefix]
  have eph: "ephemeral (nInfoGet ?m nd) = ephemeral (nInfoGet m nd)"
    by (rule onlyPerfectRoot_ephemeral [OF onlyPerfectRoot_modify])
  show ?case using 0(1) [symmetric] dl eph
    by (subst perfectInner.simps) (auto simp: Let_def nd onlyPerfectRoot_modify)
next
  case (Suc l)
  let ?m = "modifyNodeInfo nd (\<lambda>n. n\<lparr>perfectRoot := isTop\<rparr>) m"
  have lv: "Level nd = Suc l" using Suc(2) by simp
  have ok: "okTable ?m" using onlyPerfectRoot_ok [OF onlyPerfectRoot_modify] Suc(3) .
  have okm: "okInfo (nInfoGet m nd)" using Suc(3) by (simp add: okTable_def)
  have eph: "ephemeral (nInfoGet ?m x) = ephemeral (nInfoGet m x)" for x
    by (rule onlyPerfectRoot_ephemeral [OF onlyPerfectRoot_modify])
  show ?case
  proof (cases "megaMode fl < Level nd")
    case True
    show ?thesis using True eph [of nd]
      by (auto simp: perfectInner_mega_eq [OF True okm] onlyPerfectRoot_modify nInfoGet_modify_same)
  next
    case False
    let ?left = "NewNodeID l (Index nd * 2)"
    let ?right = "Sibling ?left"
    have bound: "(unat (Index nd) + 1) * 2 ^ Suc l < 2 ^ 64" using Suc(4) lv by simp
    have ul: "unat (Index ?left) = unat (Index nd) * 2" using unat_child_left [OF bound] by simp
    have ur: "unat (Index ?right) = unat (Index nd) * 2 + 1"
      using unat_child_right [OF bound] by (simp add: Sibling_def)
    have bl: "(unat (Index ?left) + 1) * 2 ^ Level ?left < 2 ^ 64"
    proof -
      have "(unat (Index nd) * 2 + 1) * 2 ^ l \<le> (unat (Index nd) + 1) * 2 ^ Suc l" by (simp add: algebra_simps)
      then show ?thesis using bound ul by simp
    qed
    have br: "(unat (Index ?right) + 1) * 2 ^ Level ?right < 2 ^ 64"
    proof -
      have "(unat (Index nd) * 2 + 1 + 1) * 2 ^ l = (unat (Index nd) + 1) * 2 ^ Suc l" by (simp add: algebra_simps)
      then show ?thesis using bound ur by (simp add: Sibling_def)
    qed
    obtain evl m1 where l1: "perfectInner fl (prefix @ '' '') ?left False ?m = Inr (evl, m1)"
      and l2: "onlyPerfectRoot ?m m1"
      and l3: "map unat (leafDataIndices evl) =
               (if megaMode fl < Level ?left then []
                else [unat (Index ?left) * 2 ^ Level ?left ..< (unat (Index ?left) + 1) * 2 ^ Level ?left])"
      and l4: "(\<forall>x. Level x \<le> Level ?left \<longrightarrow> \<not> ephemeral (nInfoGet ?m x)) \<longrightarrow> ephemeralNodes evl = []"
      using Suc(1) [of ?left ?m "prefix @ '' ''" False, OF _ ok bl] by auto
    have ok1: "okTable m1" using onlyPerfectRoot_ok [OF l2 ok] .
    obtain evr m2 where r1: "perfectInner fl (prefix @ '' '') ?right False m1 = Inr (evr, m2)"
      and r2: "onlyPerfectRoot m1 m2"
      and r3: "map unat (leafDataIndices evr) =
               (if megaMode fl < Level ?right then []
                else [unat (Index ?right) * 2 ^ Level ?right ..< (unat (Index ?right) + 1) * 2 ^ Level ?right])"
      and r4: "(\<forall>x. Level x \<le> Level ?right \<longrightarrow> \<not> ephemeral (nInfoGet m1 x)) \<longrightarrow> ephemeralNodes evr = []"
      using Suc(1) [of ?right m1 "prefix @ '' ''" False, OF _ ok1 br] by (auto simp: Sibling_def)
    have opn: "openInnerNode fl prefix nd ?m = Inr (InnerOpen prefix nd (nInfoGet ?m nd), InnerClose prefix)"
      using openInnerNode_eq ok by (simp add: okTable_def)
    have res: "perfectInner fl prefix nd isTop m =
                 Inr (InnerOpen prefix nd (nInfoGet ?m nd) # evl @ evr @ [InnerClose prefix], m2)"
      using False lv l1 r1 opn
      by (subst perfectInner.simps) (simp add: Let_def)
    have t: "onlyPerfectRoot m m2"
      using onlyPerfectRoot_trans [OF onlyPerfectRoot_trans [OF onlyPerfectRoot_modify l2] r2] .
    have nm: "\<not> megaMode fl < l" using False lv by simp
    have leaves: "map unat (leafDataIndices (InnerOpen prefix nd (nInfoGet ?m nd) # evl @ evr @ [InnerClose prefix]))
                   = [unat (Index nd) * 2 ^ Level nd ..< (unat (Index nd) + 1) * 2 ^ Level nd]"
    proof -
      have a: "[unat (Index nd) * 2 ^ Suc l ..< (unat (Index nd) + 1) * 2 ^ Suc l]
                = [unat (Index nd) * 2 * 2 ^ l ..< (unat (Index nd) * 2 + 1) * 2 ^ l]
                  @ [(unat (Index nd) * 2 + 1) * 2 ^ l ..< (unat (Index nd) * 2 + 1 + 1) * 2 ^ l]"
      proof -
        let ?i = "unat (Index nd) * 2 * 2 ^ l"
        let ?j = "(unat (Index nd) * 2 + 1) * 2 ^ l"
        have e1: "unat (Index nd) * 2 ^ Suc l = ?i" by simp
        have e2: "(unat (Index nd) + 1) * 2 ^ Suc l = ?j + 2 ^ l" by (simp add: algebra_simps)
        have e3: "(unat (Index nd) * 2 + 1 + 1) * 2 ^ l = ?j + 2 ^ l" by (simp add: algebra_simps)
        have "[?i ..< ?j + 2 ^ l] = [?i ..< ?j] @ [?j ..< ?j + 2 ^ l]"
          by (rule upt_add_eq_append) simp
        then show ?thesis by (simp only: e1 e2 e3)
      qed
      have lvr: "Level ?right = l" "Level ?left = l" by (simp_all add: Sibling_def)
      have l3': "map unat (leafDataIndices evl)
                  = [unat (Index nd) * 2 * 2 ^ l ..< (unat (Index nd) * 2 + 1) * 2 ^ l]"
        using l3 nm by (simp only: ul lvr if_False)
      have r3': "map unat (leafDataIndices evr)
                  = [(unat (Index nd) * 2 + 1) * 2 ^ l ..< (unat (Index nd) * 2 + 1 + 1) * 2 ^ l]"
        using r3 nm by (simp only: ur lvr if_False)
      have "map unat (leafDataIndices (InnerOpen prefix nd (nInfoGet ?m nd) # evl @ evr @ [InnerClose prefix]))
              = map unat (leafDataIndices evl) @ map unat (leafDataIndices evr)" by simp
      then show ?thesis by (simp only: l3' r3' lv a)
    qed
    have ephs: "(\<forall>x. Level x \<le> Level nd \<longrightarrow> \<not> ephemeral (nInfoGet m x)) \<longrightarrow>
                  ephemeralNodes (InnerOpen prefix nd (nInfoGet ?m nd) # evl @ evr @ [InnerClose prefix]) = []"
    proof
      assume a: "\<forall>x. Level x \<le> Level nd \<longrightarrow> \<not> ephemeral (nInfoGet m x)"
      have "\<forall>x. Level x \<le> Level ?left \<longrightarrow> \<not> ephemeral (nInfoGet ?m x)" using a lv eph by simp
      with l4 have el: "ephemeralNodes evl = []" by blast
      have "\<forall>x. Level x \<le> Level ?right \<longrightarrow> \<not> ephemeral (nInfoGet m1 x)"
        using a lv eph onlyPerfectRoot_ephemeral [OF l2] by (simp add: Sibling_def)
      with r4 have er: "ephemeralNodes evr = []" by blast
      have "\<not> ephemeral (nInfoGet ?m nd)" using a eph by simp
      then show "ephemeralNodes (InnerOpen prefix nd (nInfoGet ?m nd) # evl @ evr @ [InnerClose prefix]) = []"
        using el er by simp
    qed
    show ?thesis using res t leaves ephs False by simp
  qed
qed

section \<open>The decomposition of \<open>[0, size)\<close>\<close>

lemma bitLen_bounds: "n \<noteq> 0 \<Longrightarrow> 2 ^ (bitLen n - 1) \<le> n \<and> n < 2 ^ bitLen n"
proof (induction n rule: bitLen.induct)
  case (1 n)
  show ?case
  proof (cases "n div 2 = 0")
    case True
    with 1 have "n = 1" by presburger
    then show ?thesis by (simp add: bitLen.simps)
  next
    case False
    from 1(1) [OF 1(2) False] have ih: "2 ^ (bitLen (n div 2) - 1) \<le> n div 2" "n div 2 < 2 ^ bitLen (n div 2)" by auto
    have nz: "bitLen (n div 2) \<noteq> 0" using False by (subst bitLen.simps) simp
    then obtain k where k: "bitLen (n div 2) = Suc k" by (cases "bitLen (n div 2)") auto
    have "bitLen n = Suc (Suc k)" using 1(2) k by (subst bitLen.simps) simp
    moreover have "2 * 2 ^ k \<le> n" using ih(1) k by simp
    moreover have "n < 2 * (2 * 2 ^ k)" using ih(2) k by simp
    ultimately show ?thesis by simp
  qed
qed

lemma bitLen_le: "n < 2 ^ k \<Longrightarrow> bitLen n \<le> k"
proof (induction n arbitrary: k rule: bitLen.induct)
  case (1 n)
  show ?case
  proof (cases "n = 0")
    case True
    then show ?thesis by (simp add: bitLen.simps)
  next
    case False
    then obtain j where j: "k = Suc j" using 1(2) by (cases k) auto
    then have "n div 2 < 2 ^ j" using 1(2) by auto
    from 1(1) [OF False this] show ?thesis using False j by (subst bitLen.simps) simp
  qed
qed

lemma bitLen_pos: "n \<noteq> 0 \<Longrightarrow> 0 < bitLen n"
  by (subst bitLen.simps) simp

lemma rangeRight_step:
  "right \<noteq> 0 \<Longrightarrow>
   rangeRight pos right =
     NewNodeID (Len64 right - 1) (drop_bit (Len64 right - 1) pos)
       # rangeRight (pos + 2 ^ (Len64 right - 1)) (right XOR 2 ^ (Len64 right - 1))"
  by (subst rangeRight.simps) (simp add: Let_def)

lemma rangeRight_0 [simp]: "rangeRight pos 0 = []"
  by (subst rangeRight.simps) simp

lemma rangeRight_props:
  assumes "unat pos + unat right < 2 ^ 64" and "2 ^ Len64 right dvd unat pos"
  shows "concat (map natLeaves (rangeRight pos right)) = [unat pos ..< unat pos + unat right]
         \<and> (\<forall>nd \<in> set (rangeRight pos right). Level nd < Len64 right \<and> fitsWord nd)
         \<and> sorted_wrt (\<lambda>a b. Level b < Level a) (rangeRight pos right)"
  using assms
proof (induction pos right rule: rangeRight.induct)
  case (1 pos right)
  show ?case
  proof (cases "right = 0")
    case True
    then show ?thesis by simp
  next
    case False
    define l where "l = Len64 right - 1"
    have nz: "unat right \<noteq> 0" using False by (simp add: unat_eq_0)
    have len: "Len64 right = Suc l"
      using bitLen_pos [OF nz] by (simp add: l_def Len64_def)
    have bnd: "2 ^ l \<le> unat right" "unat right < 2 ^ Suc l"
      using bitLen_bounds [OF nz] len by (simp_all add: Len64_def)
    have b: "bit right l" using Len64_bit [OF False] by (simp add: l_def)
    have l64: "l < 64" using bit_imp_le_length [OF b] by simp
    have ur: "unat (right XOR 2 ^ l) = unat right - 2 ^ l" by (rule unat_xor_bit [OF b])
    have up: "unat (pos + 2 ^ l) = unat pos + 2 ^ l"
    proof -
      have "unat pos + unat ((2::64 word) ^ l) < 2 ^ LENGTH(64)"
        using 1(2) bnd(1) unat_pow2 [OF l64] by simp
      then have "unat (pos + 2 ^ l) = unat pos + unat ((2::64 word) ^ l)" by (simp only: unat_add_lem)
      then show ?thesis using unat_pow2 [OF l64] by simp
    qed
    have len': "Len64 (right XOR 2 ^ l) \<le> l"
    proof -
      have "unat (right XOR 2 ^ l) < 2 ^ l" using ur bnd by simp
      then show ?thesis unfolding Len64_def by (rule bitLen_le)
    qed
    have dv: "2 ^ l dvd unat pos"
    proof -
      have "(2::nat) ^ l dvd 2 ^ Suc l" by simp
      then show ?thesis using 1(3) len dvd_trans by metis
    qed
    have a1: "unat (pos + 2 ^ l) + unat (right XOR 2 ^ l) < 2 ^ 64" using up ur bnd 1(2) by simp
    have a2: "2 ^ Len64 (right XOR 2 ^ l) dvd unat (pos + 2 ^ l)"
    proof -
      have "(2::nat) ^ Len64 (right XOR 2 ^ l) dvd 2 ^ l" using len' by (rule le_imp_power_dvd)
      then have "2 ^ Len64 (right XOR 2 ^ l) dvd unat pos" "2 ^ Len64 (right XOR 2 ^ l) dvd (2::nat) ^ l"
        using dv dvd_trans by blast+
      then show ?thesis unfolding up by (rule dvd_add)
    qed
    have ih: "concat (map natLeaves (rangeRight (pos + 2 ^ l) (right XOR 2 ^ l)))
                = [unat pos + 2 ^ l ..< unat pos + unat right]"
             "\<forall>nd \<in> set (rangeRight (pos + 2 ^ l) (right XOR 2 ^ l)). Level nd < l \<and> fitsWord nd"
             "sorted_wrt (\<lambda>a b. Level b < Level a) (rangeRight (pos + 2 ^ l) (right XOR 2 ^ l))"
    proof -
      have push: "push_bit l (1::64 word) = 2 ^ l" by simp
      have c: "concat (map natLeaves (rangeRight (pos + 2 ^ l) (right XOR 2 ^ l)))
                = [unat (pos + 2 ^ l) ..< unat (pos + 2 ^ l) + unat (right XOR 2 ^ l)]
               \<and> (\<forall>nd \<in> set (rangeRight (pos + 2 ^ l) (right XOR 2 ^ l)).
                     Level nd < Len64 (right XOR 2 ^ l) \<and> fitsWord nd)
               \<and> sorted_wrt (\<lambda>a b. Level b < Level a) (rangeRight (pos + 2 ^ l) (right XOR 2 ^ l))"
        using 1(1) [OF False refl refl] a1 a2 by (simp add: l_def)
      have e: "unat (pos + 2 ^ l) + unat (right XOR 2 ^ l) = unat pos + unat right"
        using up ur bnd by simp
      from c have "concat (map natLeaves (rangeRight (pos + 2 ^ l) (right XOR 2 ^ l)))
                = [unat (pos + 2 ^ l) ..< unat (pos + 2 ^ l) + unat (right XOR 2 ^ l)]"
        by (rule conjunct1)
      then show "concat (map natLeaves (rangeRight (pos + 2 ^ l) (right XOR 2 ^ l)))
                = [unat pos + 2 ^ l ..< unat pos + unat right]"
        unfolding e unfolding up .
      show "\<forall>nd \<in> set (rangeRight (pos + 2 ^ l) (right XOR 2 ^ l)). Level nd < l \<and> fitsWord nd"
        using c len' by auto
      show "sorted_wrt (\<lambda>a b. Level b < Level a) (rangeRight (pos + 2 ^ l) (right XOR 2 ^ l))"
        using c by simp
    qed
    have idx: "unat (drop_bit l pos) * 2 ^ l = unat pos"
    proof -
      have "unat (drop_bit l pos) = drop_bit l (unat pos)" by (rule unat_drop_bit_eq)
      then have "unat (drop_bit l pos) = unat pos div 2 ^ l" by (simp only: drop_bit_eq_div)
      then show ?thesis using dv by simp
    qed
    have idx1: "(unat (drop_bit l pos) + 1) * 2 ^ l = unat pos + 2 ^ l"
      using idx by (simp add: algebra_simps)
    have nl: "natLeaves (NewNodeID l (drop_bit l pos)) = [unat pos ..< unat pos + 2 ^ l]"
      by (simp only: natLeaves_def NewNodeID_sel idx idx1)
    have fw: "fitsWord (NewNodeID l (drop_bit l pos))"
    proof -
      have "unat pos + 2 ^ l < 2 ^ 64" using bnd 1(2) by simp
      then show ?thesis by (simp only: fitsWord_def NewNodeID_sel idx1)
    qed
    have ap: "[unat pos ..< unat pos + unat right] = [unat pos ..< unat pos + 2 ^ l] @ [unat pos + 2 ^ l ..< unat pos + unat right]"
    proof -
      have "unat pos + unat right = (unat pos + 2 ^ l) + (unat right - 2 ^ l)" using bnd by simp
      then show ?thesis using upt_add_eq_append [of "unat pos" "unat pos + 2 ^ l" "unat right - 2 ^ l"] by simp
    qed
    show ?thesis
      unfolding rangeRight_step [OF False] l_def [symmetric]
      using ih nl fw ap len by auto
  qed
qed

lemma RangeNodes_0: "RangeNodes 0 sz = rangeRight 0 sz"
  by (simp add: RangeNodes_def Decompose_def rangeLeft.simps)

lemma RangeNodes_0_props:
  "concat (map natLeaves (RangeNodes 0 sz)) = [0 ..< unat sz]"
  "\<forall>nd \<in> set (RangeNodes 0 sz). fitsWord nd"
  "sorted_wrt (\<lambda>a b. Level b < Level a) (RangeNodes 0 sz)"
proof -
  have "unat (0::64 word) + unat sz < 2 ^ 64" using unsigned_less [of sz] by simp
  moreover have "2 ^ Len64 sz dvd unat (0::64 word)" by simp
  ultimately have p: "concat (map natLeaves (rangeRight 0 sz)) = [unat (0::64 word) ..< unat (0::64 word) + unat sz]
         \<and> (\<forall>nd \<in> set (rangeRight 0 sz). Level nd < Len64 sz \<and> fitsWord nd)
         \<and> sorted_wrt (\<lambda>a b. Level b < Level a) (rangeRight 0 sz)"
    by (rule rangeRight_props)
  show "concat (map natLeaves (RangeNodes 0 sz)) = [0 ..< unat sz]" using p by (simp add: RangeNodes_0)
  show "\<forall>nd \<in> set (RangeNodes 0 sz). fitsWord nd" using p by (simp add: RangeNodes_0)
  show "sorted_wrt (\<lambda>a b. Level b < Level a) (RangeNodes 0 sz)" using p by (simp add: RangeNodes_0)
qed

lemma leavesUnder_eq: "fitsWord nd \<Longrightarrow> leavesUnder nd = natLeaves nd"
proof -
  assume f: "fitsWord nd"
  let ?i = "unat (Index nd)" and ?l = "Level nd"
  have b: "(?i + 1) * 2 ^ ?l < 2 ^ 64" using f by (simp add: fitsWord_def)
  have "(?i + 1) * 1 \<le> (?i + 1) * 2 ^ ?l" by (rule mult_le_mono2) simp
  then have "?i + unat (1::64 word) < 2 ^ LENGTH(64)" using b by simp
  then have "unat (Index nd + 1) = ?i + unat (1::64 word)" by (simp only: unat_add_lem)
  then have u1: "unat (Index nd + 1) = ?i + 1" by simp
  have "?i * 2 ^ ?l \<le> (?i + 1) * 2 ^ ?l" by simp
  then have b0: "?i * 2 ^ ?l < 2 ^ 64" using b by simp
  have pb: "unat (push_bit ?l w) = unat w * 2 ^ ?l" if "unat w * 2 ^ ?l < 2 ^ 64" for w :: "64 word"
  proof -
    have "unat (push_bit ?l w) = take_bit LENGTH(64) (push_bit ?l (unat w))"
      by (rule unsigned_push_bit_eq)
    also have "\<dots> = take_bit 64 (unat w * 2 ^ ?l)" by (simp add: push_bit_eq_mult)
    also have "\<dots> = unat w * 2 ^ ?l" using that by (simp add: take_bit_nat_eq_self)
    finally show ?thesis .
  qed
  have p0: "unat (push_bit ?l (Index nd)) = ?i * 2 ^ ?l"
    using pb [of "Index nd"] b0 by simp
  have p1: "unat (push_bit ?l (Index nd + 1)) = (?i + 1) * 2 ^ ?l"
    using pb [of "Index nd + 1"] b u1 by simp
  show ?thesis by (simp add: leavesUnder_def natLeaves_def Coverage_def p0 p1)
qed

section \<open>The loop over the roots\<close>

lemma renderLoop_nested:
  "(case renderLoop fl prefix ids m of
      Inl e \<Rightarrow> Inl e
    | Inr (out, deferred, m') \<Rightarrow> Inr (out @ rev deferred, m'))
   = spec_renderNested fl prefix ids m"
proof (induction fl prefix ids m rule: spec_renderNested.induct)
  case (1 fl prefix m)
  show ?case by simp
next
  case (2 fl prefix r m)
  show ?case by (simp split: sum.splits prod.splits)
next
  case (3 fl prefix r v va m)
  let ?m1 = "modifyNodeInfo (Parent r) (\<lambda>n. n\<lparr>ephemeral := True\<rparr>) m"
  have step: "renderLoop fl prefix (r # v # va) m =
     (case openInnerNode fl prefix (Parent r) ?m1 of
        Inl e \<Rightarrow> Inl e
      | Inr (opened, closer) \<Rightarrow>
          (case perfect fl (prefix @ '' '') r ?m1 of
             Inl e \<Rightarrow> Inl e
           | Inr (out1, m2) \<Rightarrow>
               (case renderLoop fl (prefix @ '' '') (v # va) m2 of
                  Inl e \<Rightarrow> Inl e
                | Inr (out2, deferred2, m3) \<Rightarrow>
                    Inr ([opened] @ out1 @ out2, [closer] @ deferred2, m3))))"
    by (simp add: Let_def split: sum.splits prod.splits del: renderLoop.simps(2)
          add: renderLoop.simps(2) [of fl prefix r "v # va" m])
  show ?case
  proof (cases "openInnerNode fl prefix (Parent r) ?m1")
    case (Inl e)
    then show ?thesis by (simp add: step Let_def del: renderLoop.simps)
  next
    case (Inr oc)
    obtain opened closer where oc: "oc = (opened, closer)" by (cases oc)
    note ob = Inr [unfolded oc]
    show ?thesis
    proof (cases "perfect fl (prefix @ '' '') r ?m1")
      case (Inl e)
      then show ?thesis using ob by (simp add: step Let_def del: renderLoop.simps)
    next
      case (Inr pr)
      obtain out1 m2 where pr: "pr = (out1, m2)" by (cases pr)
      note pb = Inr [unfolded pr]
      note ih = 3 [OF refl ob refl pb refl]
      show ?thesis
      proof (cases "renderLoop fl (prefix @ '' '') (v # va) m2")
        case (Inl e)
        then have "spec_renderNested fl (prefix @ '' '') (v # va) m2 = Inl e"
          using ih by (simp del: renderLoop.simps)
        then show ?thesis using ob pb Inl by (simp add: step Let_def del: renderLoop.simps)
      next
        case (Inr rl)
        obtain out2 deferred2 m3 where rl: "rl = (out2, deferred2, m3)" by (cases rl)
        have "spec_renderNested fl (prefix @ '' '') (v # va) m2 = Inr (out2 @ rev deferred2, m3)"
          using ih Inr rl by (simp del: renderLoop.simps)
        then show ?thesis using ob pb Inr rl by (simp add: step Let_def del: renderLoop.simps)
      qed
    qed
  qed
qed

lemma spec_joiningNodes_length: "length (spec_joiningNodes prefix ids) = length ids - 1"
  by (induction prefix ids rule: spec_joiningNodes.induct) simp_all

lemma spec_joiningNodes_snd: "map snd (spec_joiningNodes prefix ids) = map Parent (butlast ids)"
  by (induction prefix ids rule: spec_joiningNodes.induct) simp_all

lemma Parent_Level [simp]: "Level (Parent nd) = Suc (Level nd)"
  by (simp add: Parent_def)

lemma renderLoop_props:
  assumes "okTable m" and "\<forall>nd \<in> set ids. fitsWord nd"
      and "sorted_wrt (\<lambda>a b. Level b < Level a) ids"
  shows "\<exists>out deferred m'. renderLoop fl prefix ids m = Inr (out, deferred, m')
     \<and> deferred = map (InnerClose \<circ> fst) (spec_joiningNodes prefix ids)
     \<and> map unat (leafDataIndices out)
         = concat (map (\<lambda>nd. if megaMode fl < Level nd then [] else natLeaves nd) ids)
     \<and> (\<forall>x. ephemeral (nInfoGet m' x)
              = (ephemeral (nInfoGet m x) \<or> x \<in> snd ` set (spec_joiningNodes prefix ids)))
     \<and> ((\<forall>x. ephemeral (nInfoGet m x) \<longrightarrow> (\<forall>nd \<in> set ids. Level nd < Level x))
          \<longrightarrow> ephemeralNodes out = spec_joiningNodes prefix ids)"
  using assms
proof (induction prefix ids arbitrary: m rule: spec_joiningNodes.induct)
  case (1 prefix)
  show ?case by simp
next
  case (2 prefix r)
  have fw: "(unat (Index r) + 1) * 2 ^ Level r < 2 ^ 64" using 2(2) by (simp add: fitsWord_def)
  obtain evs m' where p1: "perfectInner fl (prefix @ '' '') r True m = Inr (evs, m')"
    and p2: "onlyPerfectRoot m m'"
    and p3: "map unat (leafDataIndices evs) =
               (if megaMode fl < Level r then []
                else [unat (Index r) * 2 ^ Level r ..< (unat (Index r) + 1) * 2 ^ Level r])"
    and p4: "(\<forall>x. Level x \<le> Level r \<longrightarrow> \<not> ephemeral (nInfoGet m x)) \<longrightarrow> ephemeralNodes evs = []"
    using perfectInner_props [OF 2(1) fw, of fl "prefix @ '' ''" True] by auto
  have e: "(\<forall>x. ephemeral (nInfoGet m x) \<longrightarrow> Level r < Level x) \<longrightarrow> ephemeralNodes evs = []"
    using p4 by (meson leD)
  show ?case using p1 p3 e onlyPerfectRoot_ephemeral [OF p2]
    by (simp add: perfect_def natLeaves_def)
next
  case (3 prefix r v va)
  let ?rest = "v # va"
  let ?eph = "Parent r"
  let ?m1 = "modifyNodeInfo ?eph (\<lambda>n. n\<lparr>ephemeral := True\<rparr>) m"
  have ok1: "okTable ?m1" using 3(2) by (simp add: okTable_def nInfoGet_modify)
  have opn: "openInnerNode fl prefix ?eph ?m1 = Inr (InnerOpen prefix ?eph (nInfoGet ?m1 ?eph), InnerClose prefix)"
    using openInnerNode_eq ok1 by (simp add: okTable_def)
  have e1: "ephemeral (nInfoGet ?m1 x) = (ephemeral (nInfoGet m x) \<or> x = ?eph)" for x
    by (simp add: nInfoGet_modify)
  have fw: "(unat (Index r) + 1) * 2 ^ Level r < 2 ^ 64" using 3(3) by (simp add: fitsWord_def)
  obtain evs m2 where p1: "perfectInner fl (prefix @ '' '') r True ?m1 = Inr (evs, m2)"
    and p2: "onlyPerfectRoot ?m1 m2"
    and p3: "map unat (leafDataIndices evs) =
               (if megaMode fl < Level r then []
                else [unat (Index r) * 2 ^ Level r ..< (unat (Index r) + 1) * 2 ^ Level r])"
    and p4: "(\<forall>x. Level x \<le> Level r \<longrightarrow> \<not> ephemeral (nInfoGet ?m1 x)) \<longrightarrow> ephemeralNodes evs = []"
    using perfectInner_props [OF ok1 fw, of fl "prefix @ '' ''" True] by auto
  have ok2: "okTable m2" using onlyPerfectRoot_ok [OF p2 ok1] .
  have e2: "ephemeral (nInfoGet m2 x) = (ephemeral (nInfoGet m x) \<or> x = ?eph)" for x
    using onlyPerfectRoot_ephemeral [OF p2, of x] e1 by simp
  have fwr: "\<forall>nd \<in> set ?rest. fitsWord nd" using 3(3) by simp
  have sr: "sorted_wrt (\<lambda>a b. Level b < Level a) ?rest" using 3(4) by simp
  have lv: "\<forall>nd \<in> set ?rest. Level nd < Level r" using 3(4) by simp
  obtain out2 deferred2 m3 where r1: "renderLoop fl (prefix @ '' '') ?rest m2 = Inr (out2, deferred2, m3)"
    and r2: "deferred2 = map (InnerClose \<circ> fst) (spec_joiningNodes (prefix @ '' '') ?rest)"
    and r3: "map unat (leafDataIndices out2)
         = concat (map (\<lambda>nd. if megaMode fl < Level nd then [] else natLeaves nd) ?rest)"
    and r4: "\<forall>x. ephemeral (nInfoGet m3 x)
              = (ephemeral (nInfoGet m2 x) \<or> x \<in> snd ` set (spec_joiningNodes (prefix @ '' '') ?rest))"
    and r5: "(\<forall>x. ephemeral (nInfoGet m2 x) \<longrightarrow> (\<forall>nd \<in> set ?rest. Level nd < Level x))
          \<longrightarrow> ephemeralNodes out2 = spec_joiningNodes (prefix @ '' '') ?rest"
    using 3(1) [OF ok2 fwr sr] by blast
  have res: "renderLoop fl prefix (r # ?rest) m
              = Inr (InnerOpen prefix ?eph (nInfoGet ?m1 ?eph) # evs @ out2, InnerClose prefix # deferred2, m3)"
    using opn p1 r1 by (simp add: Let_def perfect_def)
  have c2: "InnerClose prefix # deferred2 = map (InnerClose \<circ> fst) (spec_joiningNodes prefix (r # ?rest))"
    using r2 by simp
  have c3: "map unat (leafDataIndices (InnerOpen prefix ?eph (nInfoGet ?m1 ?eph) # evs @ out2))
         = concat (map (\<lambda>nd. if megaMode fl < Level nd then [] else natLeaves nd) (r # ?rest))"
    using p3 r3 by (simp add: natLeaves_def)
  have c4: "\<forall>x. ephemeral (nInfoGet m3 x)
              = (ephemeral (nInfoGet m x) \<or> x \<in> snd ` set (spec_joiningNodes prefix (r # ?rest)))"
    using r4 e2 by auto
  have c5: "(\<forall>x. ephemeral (nInfoGet m x) \<longrightarrow> (\<forall>nd \<in> set (r # ?rest). Level nd < Level x))
          \<longrightarrow> ephemeralNodes (InnerOpen prefix ?eph (nInfoGet ?m1 ?eph) # evs @ out2)
                = spec_joiningNodes prefix (r # ?rest)"
  proof
    assume a: "\<forall>x. ephemeral (nInfoGet m x) \<longrightarrow> (\<forall>nd \<in> set (r # ?rest). Level nd < Level x)"
    have "\<forall>x. Level x \<le> Level r \<longrightarrow> \<not> ephemeral (nInfoGet ?m1 x)"
    proof (intro allI impI)
      fix x :: NodeID
      assume lx: "Level x \<le> Level r"
      then have "x \<noteq> ?eph" by auto
      moreover have "\<not> ephemeral (nInfoGet m x)" using a lx by auto
      ultimately show "\<not> ephemeral (nInfoGet ?m1 x)" by (simp add: e1)
    qed
    with p4 have n1: "ephemeralNodes evs = []" by blast
    have "\<forall>x. ephemeral (nInfoGet m2 x) \<longrightarrow> (\<forall>nd \<in> set ?rest. Level nd < Level x)"
    proof (intro allI impI ballI)
      fix x nd :: NodeID
      assume ex: "ephemeral (nInfoGet m2 x)" and nd: "nd \<in> set ?rest"
      show "Level nd < Level x"
      proof (cases "x = ?eph")
        case True
        then show ?thesis using lv nd by auto
      next
        case False
        then have "ephemeral (nInfoGet m x)" using ex e2 by simp
        then show ?thesis using a nd by auto
      qed
    qed
    with r5 have n2: "ephemeralNodes out2 = spec_joiningNodes (prefix @ '' '') ?rest" by blast
    have "ephemeral (nInfoGet ?m1 ?eph)" by (simp add: e1)
    then show "ephemeralNodes (InnerOpen prefix ?eph (nInfoGet ?m1 ?eph) # evs @ out2)
                = spec_joiningNodes prefix (r # ?rest)"
      using n1 n2 by simp
  qed
  show ?case
    by (rule exI, rule exI, rule exI, intro conjI, rule res, rule c2, rule c3, rule c4, rule c5)
qed

lemma concat_cond_filter:
  assumes "distinct (concat (map f xs))"
  shows "concat (map (\<lambda>x. if P x then [] else f x) xs)
           = filter (\<lambda>i. \<not> (\<exists>x \<in> set xs. P x \<and> i \<in> set (f x))) (concat (map f xs))"
  using assms
proof (induction xs)
  case Nil
  show ?case by simp
next
  case (Cons x xs)
  have d: "distinct (concat (map f xs))" and dis: "set (f x) \<inter> set (concat (map f xs)) = {}"
    using Cons.prems by auto
  have h1: "filter (\<lambda>i. \<not> (\<exists>y \<in> set (x # xs). P y \<and> i \<in> set (f y))) (f x)
              = (if P x then [] else f x)"
  proof -
    have "\<And>i. i \<in> set (f x) \<Longrightarrow> (\<not> (\<exists>y \<in> set (x # xs). P y \<and> i \<in> set (f y))) = (\<not> P x)"
      using dis by auto
    then have "filter (\<lambda>i. \<not> (\<exists>y \<in> set (x # xs). P y \<and> i \<in> set (f y))) (f x) = filter (\<lambda>i. \<not> P x) (f x)"
      by (intro filter_cong) auto
    then show ?thesis by simp
  qed
  have h2: "filter (\<lambda>i. \<not> (\<exists>y \<in> set (x # xs). P y \<and> i \<in> set (f y))) (concat (map f xs))
              = filter (\<lambda>i. \<not> (\<exists>y \<in> set xs. P y \<and> i \<in> set (f y))) (concat (map f xs))"
  proof (intro filter_cong refl)
    fix i
    assume "i \<in> set (concat (map f xs))"
    then have "i \<notin> set (f x)" using dis by auto
    then show "(\<not> (\<exists>y \<in> set (x # xs). P y \<and> i \<in> set (f y))) = (\<not> (\<exists>y \<in> set xs. P y \<and> i \<in> set (f y)))"
      by auto
  qed
  show ?case using Cons.IH [OF d] h1 h2 by simp
qed


lemma RangeNodes_0_5: "RangeNodes 0 5 = [NewNodeID 2 0, NewNodeID 0 4]"
proof -
  have l5: "Len64 5 = 3" by (simp add: Len64_def bitLen.simps)
  have l1: "Len64 1 = 1" by (simp add: Len64_def bitLen.simps)
  have x: "(5::64 word) XOR 4 = 1" by simp
  show ?thesis
    by (simp add: RangeNodes_0 rangeRight_step l5 l1 x drop_bit_eq_div)
qed

lemma RangeNodes_0_32: "RangeNodes 0 32 = [NewNodeID 5 0]"
proof -
  have l: "Len64 32 = 6" by (simp add: Len64_def bitLen.simps)
  show ?thesis
    by (simp add: RangeNodes_0 rangeRight_step l drop_bit_eq_div)
qed


lemma okTable_empty [simp]: "okTable Map.empty"
  by (simp add: okTable_def nInfoGet_def)

lemma nInfoGet_empty [simp]: "nInfoGet Map.empty nd = zeroInfo"
  by (simp add: nInfoGet_def)

lemma renderTree_props:
  assumes "okTable m"
  shows "\<exists>out deferred m'. renderLoop fl prefix (RangeNodes 0 sz) m = Inr (out, deferred, m')
     \<and> renderTree fl prefix sz m = Inr (out @ rev deferred, m')
     \<and> deferred = map (InnerClose \<circ> fst) (spec_joiningNodes prefix (RangeNodes 0 sz))
     \<and> map unat (leafDataIndices out)
         = concat (map (\<lambda>nd. if megaMode fl < Level nd then [] else natLeaves nd) (RangeNodes 0 sz))
     \<and> (\<forall>x. ephemeral (nInfoGet m' x)
              = (ephemeral (nInfoGet m x) \<or> x \<in> snd ` set (spec_joiningNodes prefix (RangeNodes 0 sz))))
     \<and> ((\<forall>x. \<not> ephemeral (nInfoGet m x))
          \<longrightarrow> ephemeralNodes out = spec_joiningNodes prefix (RangeNodes 0 sz))"
proof -
  obtain out deferred m' where r: "renderLoop fl prefix (RangeNodes 0 sz) m = Inr (out, deferred, m')"
     and d: "deferred = map (InnerClose \<circ> fst) (spec_joiningNodes prefix (RangeNodes 0 sz))"
     and l: "map unat (leafDataIndices out)
         = concat (map (\<lambda>nd. if megaMode fl < Level nd then [] else natLeaves nd) (RangeNodes 0 sz))"
     and e: "\<forall>x. ephemeral (nInfoGet m' x)
              = (ephemeral (nInfoGet m x) \<or> x \<in> snd ` set (spec_joiningNodes prefix (RangeNodes 0 sz)))"
     and n: "(\<forall>x. ephemeral (nInfoGet m x) \<longrightarrow> (\<forall>nd \<in> set (RangeNodes 0 sz). Level nd < Level x))
          \<longrightarrow> ephemeralNodes out = spec_joiningNodes prefix (RangeNodes 0 sz)"
    using renderLoop_props [OF assms RangeNodes_0_props(2) [of sz] RangeNodes_0_props(3) [of sz], of fl prefix]
    by blast
  have t: "renderTree fl prefix sz m = Inr (out @ rev deferred, m')"
    using r by (simp add: renderTree_def)
  have n': "(\<forall>x. \<not> ephemeral (nInfoGet m x))
          \<longrightarrow> ephemeralNodes out = spec_joiningNodes prefix (RangeNodes 0 sz)"
    using n by blast
  show ?thesis
    by (rule exI, rule exI, rule exI, intro conjI, rule r, rule t, rule d, rule l, rule e, rule n')
qed

lemma leafDataIndices_closers [simp]: "leafDataIndices (map (InnerClose \<circ> f) xs) = []"
  by (simp add: leafDataIndices_def)

lemma ephemeralNodes_closers [simp]: "ephemeralNodes (map (InnerClose \<circ> f) xs) = []"
  by (simp add: ephemeralNodes_def)

lemma collapsed_natLeaves:
  "collapsedLeaf fl sz i = (\<exists>nd \<in> set (RangeNodes 0 sz). megaMode fl < Level nd \<and> i \<in> set (natLeaves nd))"
  unfolding collapsedLeaf_def
  using RangeNodes_0_props(2) [of sz] leavesUnder_eq by (intro bex_cong refl) auto

text \<open>
  Claim C1, amended. On a table on which \<open>String\<close> cannot panic, \<open>renderTree\<close> returns,
  and the leaf-data nodes it emits are, in ascending order and once each, the leaf indices
  of \<open>[0, size)\<close> that do not lie under a root of the decomposition whose level is above
  the threshold; when no root is above the threshold these are all of \<open>[0, size)\<close>.
\<close>

theorem renderTree_leaf_data:
  assumes "okTable m"
  shows "\<exists>out m'. renderTree fl prefix sz m = Inr (out, m')
           \<and> map unat (leafDataIndices out) = filter (\<lambda>i. \<not> collapsedLeaf fl sz i) [0..<unat sz]
           \<and> ((\<forall>nd \<in> set (RangeNodes 0 sz). Level nd \<le> megaMode fl)
                \<longrightarrow> map unat (leafDataIndices out) = [0..<unat sz])"
proof -
  obtain out deferred m' where t: "renderTree fl prefix sz m = Inr (out @ rev deferred, m')"
     and d: "deferred = map (InnerClose \<circ> fst) (spec_joiningNodes prefix (RangeNodes 0 sz))"
     and l: "map unat (leafDataIndices out)
         = concat (map (\<lambda>nd. if megaMode fl < Level nd then [] else natLeaves nd) (RangeNodes 0 sz))"
    using renderTree_props [OF assms, of fl prefix sz] by blast
  have dist: "distinct (concat (map natLeaves (RangeNodes 0 sz)))"
    by (simp add: RangeNodes_0_props(1))
  have f: "map unat (leafDataIndices (out @ rev deferred))
            = filter (\<lambda>i. \<not> collapsedLeaf fl sz i) [0..<unat sz]"
    using concat_cond_filter [OF dist, of "\<lambda>nd. megaMode fl < Level nd"] l d
    by (simp add: collapsed_natLeaves RangeNodes_0_props(1) rev_map)
  have g: "(\<forall>nd \<in> set (RangeNodes 0 sz). Level nd \<le> megaMode fl)
                \<longrightarrow> map unat (leafDataIndices (out @ rev deferred)) = [0..<unat sz]"
  proof
    assume "\<forall>nd \<in> set (RangeNodes 0 sz). Level nd \<le> megaMode fl"
    then have "\<And>i. \<not> collapsedLeaf fl sz i" by (auto simp: collapsedLeaf_def)
    then show "map unat (leafDataIndices (out @ rev deferred)) = [0..<unat sz]" using f by simp
  qed
  show ?thesis by (rule exI, rule exI, intro conjI, rule t, rule f, rule g)
qed

theorem renderTree_leaf_data_witness:
  "okTable Map.empty
   \<and> (\<exists>out m'. renderTree defaultFlags [] 5 Map.empty = Inr (out, m')
         \<and> map unat (leafDataIndices out) = [0, 1, 2, 3, 4])"
proof -
  have lv: "\<forall>nd \<in> set (RangeNodes 0 5). Level nd \<le> megaMode defaultFlags"
    by (simp add: RangeNodes_0_5 defaultFlags_def)
  have u: "[0..<unat (5::64 word)] = [0, 1, 2, 3, 4]" by (simp add: upt_rec)
  obtain out m' where a: "renderTree defaultFlags [] 5 Map.empty = Inr (out, m')"
    and c: "(\<forall>nd \<in> set (RangeNodes 0 5). Level nd \<le> megaMode defaultFlags)
                \<longrightarrow> map unat (leafDataIndices out) = [0..<unat (5::64 word)]"
    using renderTree_leaf_data [OF okTable_empty, of defaultFlags "[]" 5] by blast
  have "map unat (leafDataIndices out) = [0, 1, 2, 3, 4]" using c lv u by simp
  with a show ?thesis by simp
qed

text \<open>
  Claim C1, as stated, fails: a tree of 32 leaves is one perfect subtree of level 5,
  which the default threshold 4 collapses, and no leaf-data node is emitted, not even for
  leaf 0.
\<close>

theorem renderTree_collapsed_no_leaves:
  "map_sum id (\<lambda>r. map unat (leafDataIndices (fst r)))
       (renderTree (defaultFlags\<lparr>treeSize := 32\<rparr>) [] 32 Map.empty) = Inr []
   \<and> (0::nat) \<in> set [0..<unat (32::64 word)]"
proof -
  have m: "megaMode (defaultFlags\<lparr>treeSize := 32\<rparr>) < Level (NewNodeID 5 0)"
    by (simp add: defaultFlags_def)
  have o: "okInfo (nInfoGet Map.empty (NewNodeID 5 0))" by simp
  show ?thesis
    by (simp add: renderTree_def RangeNodes_0_32 perfect_def perfectInner_mega_eq [OF m o])
qed

text \<open>
  Claim C3. On a table on which \<open>String\<close> cannot panic and in which no node is marked
  ephemeral, \<open>renderTree\<close> prints what the nesting of the claim prints
  (\<open>spec_renderNested\<close>); the blocks printed with an ephemeral annotation are exactly the
  joining nodes of the claim (\<open>spec_joiningNodes\<close>), in that order: one less than the
  roots, the parents of all roots but the last; these nodes are the ones marked ephemeral
  in the table afterwards; and the output ends with their closings in the reverse order of
  their opening. For size 5 there is one such node, as the witness shows.
\<close>

theorem renderTree_joining_nodes:
  assumes "okTable m" and "\<forall>x. \<not> ephemeral (nInfoGet m x)"
  shows "renderTree fl prefix sz m = spec_renderNested fl prefix (RangeNodes 0 sz) m
       \<and> (\<exists>out m'. renderTree fl prefix sz m = Inr (out, m')
            \<and> ephemeralNodes out = spec_joiningNodes prefix (RangeNodes 0 sz)
            \<and> length (ephemeralNodes out) = length (RangeNodes 0 sz) - 1
            \<and> map snd (ephemeralNodes out) = map Parent (butlast (RangeNodes 0 sz))
            \<and> (\<forall>x. ephemeral (nInfoGet m' x) = (x \<in> set (map Parent (butlast (RangeNodes 0 sz)))))
            \<and> (\<exists>body. out = body @ rev (map (InnerClose \<circ> fst) (spec_joiningNodes prefix (RangeNodes 0 sz)))))"
proof -
  let ?ids = "RangeNodes 0 sz"
  obtain out deferred m' where t: "renderTree fl prefix sz m = Inr (out @ rev deferred, m')"
     and d: "deferred = map (InnerClose \<circ> fst) (spec_joiningNodes prefix ?ids)"
     and e: "\<forall>x. ephemeral (nInfoGet m' x)
              = (ephemeral (nInfoGet m x) \<or> x \<in> snd ` set (spec_joiningNodes prefix ?ids))"
     and n: "(\<forall>x. \<not> ephemeral (nInfoGet m x)) \<longrightarrow> ephemeralNodes out = spec_joiningNodes prefix ?ids"
    using renderTree_props [OF assms(1), of fl prefix sz] by blast
  have nested: "renderTree fl prefix sz m = spec_renderNested fl prefix ?ids m"
    using renderLoop_nested [of fl prefix ?ids m] by (simp add: renderTree_def)
  have en: "ephemeralNodes (out @ rev deferred) = spec_joiningNodes prefix ?ids"
    using n assms(2) d by (simp add: rev_map)
  have c1: "length (ephemeralNodes (out @ rev deferred)) = length ?ids - 1"
    by (simp only: en spec_joiningNodes_length)
  have c2: "map snd (ephemeralNodes (out @ rev deferred)) = map Parent (butlast ?ids)"
    by (simp only: en spec_joiningNodes_snd)
  have c3: "\<forall>x. ephemeral (nInfoGet m' x) = (x \<in> set (map Parent (butlast ?ids)))"
  proof
    fix x
    have "snd ` set (spec_joiningNodes prefix ?ids) = set (map snd (spec_joiningNodes prefix ?ids))" by simp
    then show "ephemeral (nInfoGet m' x) = (x \<in> set (map Parent (butlast ?ids)))"
      using e assms(2) by (simp only: spec_joiningNodes_snd) simp
  qed
  have c4: "\<exists>body. out @ rev deferred = body @ rev (map (InnerClose \<circ> fst) (spec_joiningNodes prefix ?ids))"
    using d by blast
  have "\<exists>out m'. renderTree fl prefix sz m = Inr (out, m')
            \<and> ephemeralNodes out = spec_joiningNodes prefix ?ids
            \<and> length (ephemeralNodes out) = length ?ids - 1
            \<and> map snd (ephemeralNodes out) = map Parent (butlast ?ids)
            \<and> (\<forall>x. ephemeral (nInfoGet m' x) = (x \<in> set (map Parent (butlast ?ids))))
            \<and> (\<exists>body. out = body @ rev (map (InnerClose \<circ> fst) (spec_joiningNodes prefix ?ids)))"
    by (rule exI, rule exI, intro conjI, rule t, rule en, rule c1, rule c2, rule c3, rule c4)
  with nested show ?thesis by (rule conjI)
qed

theorem renderTree_joining_nodes_witness:
  "okTable Map.empty \<and> (\<forall>x. \<not> ephemeral (nInfoGet Map.empty x))
   \<and> (\<exists>out m'. renderTree defaultFlags [] 5 Map.empty = Inr (out, m')
         \<and> ephemeralNodes out = [([], NewNodeID 3 0)]
         \<and> length (ephemeralNodes out) = 1
         \<and> (\<forall>x. ephemeral (nInfoGet m' x) = (x = NewNodeID 3 0)))"
proof -
  have z: "\<forall>x. \<not> ephemeral (nInfoGet Map.empty x)" by (simp add: zeroInfo_def)
  have p: "Parent (NewNodeID 2 0) = NewNodeID 3 0" by (simp add: Parent_def drop_bit_eq_div)
  have j: "spec_joiningNodes [] (RangeNodes 0 5) = [([], NewNodeID 3 0)]"
    by (simp add: RangeNodes_0_5 p)
  have b: "map Parent (butlast (RangeNodes 0 5)) = [NewNodeID 3 0]"
    by (simp add: RangeNodes_0_5 p)
  obtain out m' where a: "renderTree defaultFlags [] 5 Map.empty = Inr (out, m')"
    and c: "ephemeralNodes out = spec_joiningNodes [] (RangeNodes 0 5)"
    and d: "\<forall>x. ephemeral (nInfoGet m' x) = (x \<in> set (map Parent (butlast (RangeNodes 0 5))))"
    using renderTree_joining_nodes [OF okTable_empty z, of defaultFlags "[]" 5] by blast
  have c': "ephemeralNodes out = [([], NewNodeID 3 0)]" using c by (simp only: j)
  then have l: "length (ephemeralNodes out) = 1" by simp
  have d': "\<forall>x. ephemeral (nInfoGet m' x) = (x = NewNodeID 3 0)" using d by (simp only: b) simp
  from a c' l d' okTable_empty z show ?thesis by blast
qed

section \<open>\<open>main\<close>\<close>





text \<open>
  Claim C5 at the target leaf 0 of a tree of 5 leaves: the block that marks the inclusion
  path is guarded by \<open>*inclusion > 0\<close>, so the table stays empty and leaf 0 is not marked.
  For a target above 0 the path is marked, as \<open>markInclusion_path\<close> below shows.
\<close>

theorem inclusion_zero_not_marked:
  "annotate scan incl (defaultFlags\<lparr>treeSize := 5, inclusion := 0\<rparr>)
     = Inr (defaultFlags\<lparr>treeSize := 5, inclusion := 0\<rparr>, Map.empty)
   \<and> \<not> incPath (nInfoGet Map.empty (NewNodeID 0 0))"
  by (simp add: annotate_def markInclusion_def defaultFlags_def Let_def zeroInfo_def)

lemma markPath_get:
  "nInfoGet (markPath h nd m) x =
     (if \<exists>k. Level nd + k < h \<and> x = (Parent ^^ k) nd
      then (nInfoGet m x)\<lparr>incPath := True\<rparr> else nInfoGet m x)"
proof (induction h nd m rule: markPath.induct)
  case (1 h nd m)
  show ?case
  proof (cases "Level nd < h")
    case True
    have ex: "(\<exists>k. Level nd + k < h \<and> x = (Parent ^^ k) nd)
               = (x = nd \<or> (\<exists>k. Level (Parent nd) + k < h \<and> x = (Parent ^^ k) (Parent nd)))"
    proof
      assume "\<exists>k. Level nd + k < h \<and> x = (Parent ^^ k) nd"
      then obtain k where k: "Level nd + k < h" "x = (Parent ^^ k) nd" by blast
      show "x = nd \<or> (\<exists>k. Level (Parent nd) + k < h \<and> x = (Parent ^^ k) (Parent nd))"
      proof (cases k)
        case 0
        then show ?thesis using k by simp
      next
        case (Suc j)
        then have "Level (Parent nd) + j < h \<and> x = (Parent ^^ j) (Parent nd)"
          using k by (simp add: funpow_swap1)
        then show ?thesis by blast
      qed
    next
      assume "x = nd \<or> (\<exists>k. Level (Parent nd) + k < h \<and> x = (Parent ^^ k) (Parent nd))"
      then show "\<exists>k. Level nd + k < h \<and> x = (Parent ^^ k) nd"
      proof
        assume "x = nd"
        then have "Level nd + 0 < h \<and> x = (Parent ^^ 0) nd" using True by simp
        then show ?thesis by blast
      next
        assume "\<exists>k. Level (Parent nd) + k < h \<and> x = (Parent ^^ k) (Parent nd)"
        then obtain k where "Level (Parent nd) + k < h" "x = (Parent ^^ k) (Parent nd)" by blast
        then have "Level nd + Suc k < h \<and> x = (Parent ^^ Suc k) nd" by (simp add: funpow_swap1)
        then show ?thesis by blast
      qed
    qed
    show ?thesis using True 1 [OF True]
      by (subst markPath.simps) (auto simp: ex nInfoGet_modify)
  next
    case False
    then show ?thesis by (subst markPath.simps) auto
  qed
qed

section \<open>Proof nodes and the inclusion path\<close>

lemma proof_update_idem [simp]: "n\<lparr>proof' := True\<rparr>\<lparr>proof' := True\<rparr> = n\<lparr>proof' := True\<rparr>"
  by simp

lemma markProofNodes_get:
  "nInfoGet (markProofNodes i b e ids m) nd =
     (if \<exists>j < length ids. ids ! j = nd \<and> \<not> (b \<le> i + int j \<and> i + int j < e \<and> b + 1 < e)
      then (nInfoGet m nd)\<lparr>proof' := True\<rparr> else nInfoGet m nd)"
proof (induction ids arbitrary: i m)
  case Nil
  show ?case by simp
next
  case (Cons x xs)
  have ex: "\<And>P. (\<exists>j < length (x # xs). P j) = (P 0 \<or> (\<exists>j < length xs. P (Suc j)))"
    by (auto simp: less_Suc_eq_0_disj)
  have ar: "\<And>j. i + 1 + int j = i + int (Suc j)" by simp
  show ?case
    by (simp only: markProofNodes.simps Cons.IH ex ar)
       (auto simp: nInfoGet_modify)
qed

lemma set_spec_proofMarked:
  "nd \<in> set (spec_proofMarked ids b e) =
     ((\<exists>j < length ids. ids ! j = nd \<and> \<not> (b \<le> int j \<and> int j < e \<and> b + 1 < e))
      \<or> (b + 1 < e \<and> nd = Parent (ids ! nat (e - 1))))"
  by (auto simp: spec_proofMarked_def)

lemma markProof_eq:
  assumes "0 \<le> begin" and "end \<le> int (length ids)"
  shows "\<exists>m'. markProof ids begin end m = Inr m'
           \<and> (\<forall>nd. nInfoGet m' nd =
                 (if nd \<in> set (spec_proofMarked ids begin end)
                  then (nInfoGet m nd)\<lparr>proof' := True\<rparr> else nInfoGet m nd))"
proof (cases "begin + 1 < end")
  case True
  then have r: "0 \<le> end - 1 \<and> end - 1 < int (length ids)" using assms by simp
  show ?thesis using True r
    by (auto simp: markProof_def markEphemeralProof_def nInfoGet_modify markProofNodes_get [where i = 0, simplified]
          set_spec_proofMarked)
next
  case False
  then show ?thesis
    by (auto simp: markProof_def markEphemeralProof_def markProofNodes_get [where i = 0, simplified]
          set_spec_proofMarked)
qed

text \<open>
  Claim C6. Given the node list and a span with \<open>0 \<le> begin\<close> and \<open>end \<le> len\<close>, the
  marking succeeds, and afterwards the annotation of a node is the one before with
  \<open>proof\<close> set if the node is among those the claim names (\<open>spec_proofMarked\<close>: every
  entry outside the span, every entry at all when \<open>end - begin \<le> 1\<close>, and the parent of
  the entry at \<open>end - 1\<close> when \<open>end - begin > 1\<close>), and is unchanged otherwise.
\<close>

theorem markProof_marks:
  assumes "0 \<le> begin" and "end \<le> int (length ids)"
  shows "\<exists>m'. markProof ids begin end m = Inr m'
           \<and> (\<forall>nd. nInfoGet m' nd =
                 (if nd \<in> set (spec_proofMarked ids begin end)
                  then (nInfoGet m nd)\<lparr>proof' := True\<rparr> else nInfoGet m nd))"
  using assms by (rule markProof_eq)

theorem markProof_marks_witness:
  "(0::int) \<le> 2 \<and> 4 \<le> int (length [NewNodeID 0 1, NewNodeID 1 1, NewNodeID 0 6, NewNodeID 1 2])
   \<and> (\<exists>m'. markProof [NewNodeID 0 1, NewNodeID 1 1, NewNodeID 0 6, NewNodeID 1 2] 2 4 Map.empty = Inr m'
        \<and> proof' (nInfoGet m' (NewNodeID 0 1)) \<and> proof' (nInfoGet m' (NewNodeID 1 1))
        \<and> \<not> proof' (nInfoGet m' (NewNodeID 0 6)) \<and> \<not> proof' (nInfoGet m' (NewNodeID 1 2))
        \<and> proof' (nInfoGet m' (NewNodeID 2 1)))"
proof -
  obtain m' where m: "markProof [NewNodeID 0 1, NewNodeID 1 1, NewNodeID 0 6, NewNodeID 1 2] 2 4 Map.empty = Inr m'"
    and g: "\<And>nd. nInfoGet m' nd =
                 (if nd \<in> set (spec_proofMarked [NewNodeID 0 1, NewNodeID 1 1, NewNodeID 0 6, NewNodeID 1 2] 2 4)
                  then (nInfoGet Map.empty nd)\<lparr>proof' := True\<rparr> else nInfoGet Map.empty nd)"
    using markProof_marks [of 2 4 "[NewNodeID 0 1, NewNodeID 1 1, NewNodeID 0 6, NewNodeID 1 2]" Map.empty]
    by auto
  have s: "spec_proofMarked [NewNodeID 0 1, NewNodeID 1 1, NewNodeID 0 6, NewNodeID 1 2] 2 4
             = [NewNodeID 0 1, NewNodeID 1 1, NewNodeID 2 1]"
    by (simp add: spec_proofMarked_def upt_rec Parent_def NewNodeID_def drop_bit_eq_div)
  have g1: "nInfoGet m' nd =
                 (if nd \<in> set [NewNodeID 0 1, NewNodeID 1 1, NewNodeID 2 1]
                  then (nInfoGet Map.empty nd)\<lparr>proof' := True\<rparr> else nInfoGet Map.empty nd)" for nd
    using g [of nd] by (simp only: s)
  have "proof' (nInfoGet m' (NewNodeID 0 1)) \<and> proof' (nInfoGet m' (NewNodeID 1 1))
        \<and> \<not> proof' (nInfoGet m' (NewNodeID 0 6)) \<and> \<not> proof' (nInfoGet m' (NewNodeID 1 2))
        \<and> proof' (nInfoGet m' (NewNodeID 2 1))"
    by (simp only: g1) (simp add: NewNodeID_def nInfoGet_def zeroInfo_def)
  with m show ?thesis by simp
qed

lemma markInclusion_path:
  assumes "0 < inclusion fl"
      and "incl (word_of_int (inclusion fl)) (treeSize fl) = Some (ids, b, e)"
      and "0 \<le> b" and "e \<le> int (length ids)"
  shows "\<exists>m'. markInclusion incl fl (Suc h) Map.empty = Inr m'
           \<and> (\<forall>x. incPath (nInfoGet m' x)
                  = (\<exists>k \<le> h. x = (Parent ^^ k) (NewNodeID 0 (word_of_int (inclusion fl)))))"
proof -
  let ?leaf = "NewNodeID 0 (word_of_int (inclusion fl))"
  let ?m1 = "modifyNodeInfo ?leaf (\<lambda>n. n\<lparr>incPath := True\<rparr>) Map.empty"
  obtain m2 where m2: "markProof ids b e ?m1 = Inr m2"
    and g: "\<forall>nd. nInfoGet m2 nd =
                 (if nd \<in> set (spec_proofMarked ids b e)
                  then (nInfoGet ?m1 nd)\<lparr>proof' := True\<rparr> else nInfoGet ?m1 nd)"
    using markProof_eq [OF assms(3) assms(4), of ?m1] by blast
  have i2: "incPath (nInfoGet m2 x) = (x = ?leaf)" for x
    by (simp add: g nInfoGet_modify zeroInfo_def)
  have r: "markInclusion incl fl (Suc h) Map.empty = Inr (markPath (Suc h) ?leaf m2)"
    using assms(1) assms(2) m2 by (simp add: markInclusion_def Let_def)
  have "incPath (nInfoGet (markPath (Suc h) ?leaf m2) x) = (\<exists>k \<le> h. x = (Parent ^^ k) ?leaf)" for x
  proof -
    have "x = ?leaf \<Longrightarrow> \<exists>k \<le> h. x = (Parent ^^ k) ?leaf"
      by (rule exI [of _ 0]) simp
    then show ?thesis by (auto simp: markPath_get i2 less_Suc_eq_le)
  qed
  with r show ?thesis by simp
qed

end
